theory Spec2Isabelle
  imports Complex_Main "HOL-Library.AList"
begin

section \<open>Python building blocks\<close>

text \<open>
  The slice \<^verbatim>\<open>xs[i:]\<close> of Python for an arbitrary integer \<open>i\<close>: a negative start
  counts from the end and is clamped at the front of the list, a start beyond the end gives
  the empty list. In particular \<^verbatim>\<open>xs[-0:]\<close> is \<^verbatim>\<open>xs[0:]\<close>, the whole list.
\<close>

definition slice_from :: "int \<Rightarrow> 'a list \<Rightarrow> 'a list" where
  "slice_from i xs =
     (let n = int (length xs);
          j = (if i < 0 then max 0 (n + i) else min i n)
      in drop (nat j) xs)"

text \<open>
  Exceptions are values. \<open>Exception\<close> is the generic class that \<^verbatim>\<open>TidalAPI\<close> and
  \<^verbatim>\<open>get_job_data\<close> raise with a message; \<open>ValueError\<close> is what \<^verbatim>\<open>get_jobs\<close>
  raises on an unexpected response format and what escapes the wrappers unchanged.
  \<open>RecursionError\<close> is raised by the interpreter when a call finds no free stack frame,
  \<open>OverflowError\<close> by \<^verbatim>\<open>timedelta\<close> and by \<^verbatim>\<open>datetime\<close> arithmetic outside their
  ranges. \<open>str\<close> is Python's \<^verbatim>\<open>str(e)\<close>: the message (for the last two classes the
  usual text; no modelled code takes \<open>str\<close> of them).
\<close>

datatype error = Exception string | ValueError string | RecursionError | OverflowError

fun str :: "error \<Rightarrow> string" where
  "str (Exception m) = m"
| "str (ValueError m) = m"
| "str RecursionError = ''maximum recursion depth exceeded''"
| "str OverflowError = ''date value out of range''"


section \<open>Bounded history log (\<^verbatim>\<open>JobHistory\<close> in src/main.py)\<close>

text \<open>
  A history entry is the dictionary built by \<^verbatim>\<open>add_status_entry\<close> (its key
  \<^verbatim>\<open>output\<close> is the field \<open>output_field\<close>). The history file
  either does not exist (\<open>None\<close>) or holds the JSON list of entries, oldest first.
\<close>

record history_entry =
  timestamp :: string
  job_id :: string
  job_name :: string
  status :: string
  output_field :: "string option"
  error_log :: "string option"

type_synonym history_file = "history_entry list option"

definition load_history :: "history_file \<Rightarrow> history_entry list" where
  "load_history f = (case f of Some h \<Rightarrow> h | None \<Rightarrow> [])"

definition save_history :: "history_entry list \<Rightarrow> history_file" where
  "save_history history = Some history"

text \<open>
  \<^verbatim>\<open>add_status_entry\<close>: the first argument is the value of
  \<^verbatim>\<open>datetime.now().isoformat()\<close> at the call; the last one is the history file, which is
  returned as rewritten.
\<close>

definition add_status_entry ::
  "string \<Rightarrow> string \<Rightarrow> string \<Rightarrow> string \<Rightarrow> string option \<Rightarrow> string option
     \<Rightarrow> history_file \<Rightarrow> history_file" where
  "add_status_entry now j_id j_name st out err f =
     (let entry = \<lparr>timestamp = now, job_id = j_id, job_name = j_name, status = st,
                    output_field = out, error_log = err\<rparr>;
          history = load_history f @ [entry];
          history = (if length history > 1000 then slice_from (- 1000) history else history)
      in save_history history)"

text \<open>A sequence of appends, one call of \<^verbatim>\<open>add_status_entry\<close> per entry, in order.\<close>

definition append_entry :: "history_entry \<Rightarrow> history_file \<Rightarrow> history_file" where
  "append_entry e f =
     add_status_entry (timestamp e) (job_id e) (job_name e) (status e) (output_field e) (error_log e) f"

definition append_entries :: "history_entry list \<Rightarrow> history_file \<Rightarrow> history_file" where
  "append_entries es f = fold append_entry es f"

text \<open>\<^verbatim>\<open>get_job_history(job_name, limit)\<close>; \<open>limit\<close> is any Python integer.\<close>

definition get_job_history :: "history_file \<Rightarrow> string \<Rightarrow> int \<Rightarrow> history_entry list" where
  "get_job_history f j_name limit =
     (let history = load_history f;
          job_history = filter (\<lambda>entry. job_name entry = j_name) history
      in if job_history \<noteq> [] then slice_from (- limit) job_history else [])"


section \<open>TTL cache (\<^verbatim>\<open>JobCache\<close> in src/main.py)\<close>

text \<open>
  An instant is a number of microseconds since the epoch, the resolution of \<^verbatim>\<open>datetime\<close>.
  A file has a content and the instant of its last modification; the file system maps
  paths to files.
\<close>

record 'd stored_file =
  content :: 'd
  mtime :: int

type_synonym 'd filesystem = "string \<rightharpoonup> 'd stored_file"

record job_cache =
  cache_file :: string
  expiry_hours :: int

text \<open>
  \<^verbatim>\<open>datetime.fromtimestamp\<close> and \<^verbatim>\<open>datetime.now\<close> give naive local datetimes: the
  wall-clock reading of the local time zone at the instant, here the microseconds from
  1970-01-01 00:00 to that reading. The zone is its UTC offset at every instant, in
  microseconds; the offset changes at a daylight-saving switch.
\<close>

type_synonym zone = "int \<Rightarrow> int"

definition fromtimestamp :: "zone \<Rightarrow> int \<Rightarrow> int" where
  "fromtimestamp tz t = t + tz t"

text \<open>
  \<^verbatim>\<open>timedelta(hours=h)\<close> holds at most 999999999 days in either direction and raises
  \<^verbatim>\<open>OverflowError\<close> beyond; a \<^verbatim>\<open>datetime\<close> lies between 0001-01-01 00:00:00 and
  9999-12-31 23:59:59.999999, and an addition that leaves this range raises
  \<^verbatim>\<open>OverflowError\<close>.
\<close>

definition timedelta_hours :: "int \<Rightarrow> error + int" where
  "timedelta_hours h =
     (if - 999999999 \<le> h div 24 \<and> h div 24 \<le> 999999999
      then Inr (h * 3600000000) else Inl OverflowError)"

definition datetime_min :: int where
  "datetime_min = - 62135596800000000"

definition datetime_max :: int where
  "datetime_max = 253402300799999999"

definition datetime_add :: "int \<Rightarrow> int \<Rightarrow> error + int" where
  "datetime_add d delta =
     (if datetime_min \<le> d + delta \<and> d + delta \<le> datetime_max
      then Inr (d + delta) else Inl OverflowError)"

text \<open>
  \<^verbatim>\<open>is_cache_valid\<close> in the zone \<open>tz\<close> at the instant \<open>now\<close>. It returns a Boolean or
  raises what the \<^verbatim>\<open>timedelta\<close> or the addition raises.
\<close>

definition is_cache_valid :: "job_cache \<Rightarrow> zone \<Rightarrow> 'd filesystem \<Rightarrow> int \<Rightarrow> error + bool" where
  "is_cache_valid c tz fs now =
     (case fs (cache_file c) of
        None \<Rightarrow> Inr False
      | Some f \<Rightarrow>
          (let cache_time = fromtimestamp tz (mtime f)
           in case timedelta_hours (expiry_hours c) of
                Inl e \<Rightarrow> Inl e
              | Inr delta \<Rightarrow>
                  (case datetime_add cache_time delta of
                     Inl e \<Rightarrow> Inl e
                   | Inr expiry_time \<Rightarrow> Inr (fromtimestamp tz now < expiry_time))))"

text \<open>
  The condition under which neither the \<^verbatim>\<open>timedelta\<close> nor the expiry time of a file
  modified at the instant \<open>t\<close> leaves its range.
\<close>

definition expiry_in_range :: "job_cache \<Rightarrow> zone \<Rightarrow> int \<Rightarrow> bool" where
  "expiry_in_range c tz t \<longleftrightarrow>
     - 999999999 \<le> expiry_hours c div 24 \<and> expiry_hours c div 24 \<le> 999999999
     \<and> datetime_min \<le> t + tz t + expiry_hours c * 3600000000
     \<and> t + tz t + expiry_hours c * 3600000000 \<le> datetime_max"

text \<open>
  \<^verbatim>\<open>save_cache\<close>, from before the call to after it: the file holds the data and carries
  the instant of the write.
\<close>

definition save_cache :: "job_cache \<Rightarrow> 'd \<Rightarrow> int \<Rightarrow> 'd filesystem \<Rightarrow> 'd filesystem" where
  "save_cache c data now fs = fs(cache_file c \<mapsto> \<lparr>content = data, mtime = now\<rparr>)"

text \<open>
  \<^verbatim>\<open>save_cache\<close>, statement by statement. The content of a file is \<open>Some\<close> of a complete
  snapshot, or \<open>None\<close> for a file that holds no complete snapshot. \<^verbatim>\<open>open(path, 'w')\<close>
  creates the file or truncates it to length zero; \<^verbatim>\<open>json.dump\<close> and the end of the
  \<^verbatim>\<open>with\<close> block write the text into this same file. The list holds the file system
  after the first and after the second statement.
\<close>

definition save_cache_steps ::
  "job_cache \<Rightarrow> 'd \<Rightarrow> int \<Rightarrow> int \<Rightarrow> 'd option filesystem \<Rightarrow> 'd option filesystem list" where
  "save_cache_steps c data open_time write_time fs =
     (let opened = fs(cache_file c \<mapsto> \<lparr>content = None, mtime = open_time\<rparr>);
          written = opened(cache_file c \<mapsto> \<lparr>content = Some data, mtime = write_time\<rparr>)
      in [opened, written])"

definition load_cache :: "job_cache \<Rightarrow> 'd filesystem \<Rightarrow> 'd option" where
  "load_cache c fs = (case fs (cache_file c) of Some f \<Rightarrow> Some (content f) | None \<Rightarrow> None)"

text \<open>
  The configuration of src/config.py: \<^verbatim>\<open>CACHE_FILE\<close> and the default of
  \<^verbatim>\<open>CACHE_EXPIRY_HOURS\<close>.
\<close>

definition default_cache :: job_cache where
  "default_cache = \<lparr>cache_file = ''data/job_graph_cache.json'', expiry_hours = 24\<rparr>"


section \<open>Directed graphs (\<^verbatim>\<open>networkx.DiGraph\<close>)\<close>

text \<open>
  A \<^verbatim>\<open>DiGraph\<close> keeps its nodes and, for every node, its predecessors and successors in
  dictionaries, which iterate in insertion order. The model keeps the nodes and the edges
  in the order of their first insertion. Adding a node or an edge that is present changes
  nothing; adding an edge adds its two ends as nodes first.
\<close>

record 'a digraph =
  nodes :: "'a list"
  edges :: "('a \<times> 'a) list"

definition empty_graph :: "'a digraph" where
  "empty_graph = \<lparr>nodes = [], edges = []\<rparr>"

definition add_node :: "'a \<Rightarrow> 'a digraph \<Rightarrow> 'a digraph" where
  "add_node n G = (if n \<in> set (nodes G) then G else G\<lparr>nodes := nodes G @ [n]\<rparr>)"

definition add_edge :: "'a \<Rightarrow> 'a \<Rightarrow> 'a digraph \<Rightarrow> 'a digraph" where
  "add_edge u v G =
     (let G = add_node u G;
          G = add_node v G
      in if (u, v) \<in> set (edges G) then G else G\<lparr>edges := edges G @ [(u, v)]\<rparr>)"

definition predecessors :: "'a digraph \<Rightarrow> 'a \<Rightarrow> 'a list" where
  "predecessors G n = map fst (filter (\<lambda>e. snd e = n) (edges G))"

definition successors :: "'a digraph \<Rightarrow> 'a \<Rightarrow> 'a list" where
  "successors G n = map snd (filter (\<lambda>e. fst e = n) (edges G))"

text \<open>
  The representation invariant of a \<^verbatim>\<open>DiGraph\<close>: no node and no edge is stored twice,
  and both ends of every edge are nodes.
\<close>

definition wf_graph :: "'a digraph \<Rightarrow> bool" where
  "wf_graph G \<longleftrightarrow>
     distinct (nodes G) \<and> distinct (edges G)
     \<and> list_all (\<lambda>e. fst e \<in> set (nodes G) \<and> snd e \<in> set (nodes G)) (edges G)"

text \<open>
  \<^verbatim>\<open>node_link_data\<close> lists the nodes and then the edges, source by source;
  \<^verbatim>\<open>node_link_graph\<close> adds the nodes and then the edges to an empty graph.
\<close>

type_synonym 'a node_link = "'a list \<times> ('a \<times> 'a) list"

definition node_link_data :: "'a digraph \<Rightarrow> 'a node_link" where
  "node_link_data G =
     (nodes G, concat (map (\<lambda>u. map (\<lambda>v. (u, v)) (successors G u)) (nodes G)))"

definition node_link_graph :: "'a node_link \<Rightarrow> 'a digraph" where
  "node_link_graph d =
     fold (\<lambda>(u, v) G. add_edge u v G) (snd d) (fold add_node (fst d) empty_graph)"


section \<open>Graph builder (\<^verbatim>\<open>build_job_graph\<close> in src/main.py)\<close>

text \<open>
  A job is the dictionary of the scheduler, read at its keys \<^verbatim>\<open>id\<close> (\<open>jid\<close>) and
  \<^verbatim>\<open>name\<close> (\<open>jname\<close>); a trigger is read at \<^verbatim>\<open>triggered_job_name\<close>. The API object
  is its two methods used here; each call returns a value or raises.
\<close>

record job =
  jid :: string
  jname :: string

record trigger =
  triggered_job_name :: string

record tidal_api =
  get_jobs :: "string \<Rightarrow> error + job list"
  get_job_triggers :: "string \<Rightarrow> error + trigger list"

text \<open>
  The loop over the jobs, with the graph built so far. An exception of
  \<^verbatim>\<open>get_job_triggers\<close> is not caught: it leaves the loop and the function.
\<close>

fun build_loop :: "job list \<Rightarrow> tidal_api \<Rightarrow> string digraph \<Rightarrow> error + string digraph" where
  "build_loop [] api G = Inr G"
| "build_loop (job # jobs) api G =
     (let job_id = jid job;
          job_name = jname job;
          G = add_node job_name G
      in case get_job_triggers api job_id of
           Inl e \<Rightarrow> Inl e
         | Inr triggers \<Rightarrow>
             build_loop jobs api
               (fold (\<lambda>trg G. add_edge job_name (triggered_job_name trg) G) triggers G))"

definition build_job_graph :: "job list \<Rightarrow> tidal_api \<Rightarrow> error + string digraph" where
  "build_job_graph jobs api = build_loop jobs api empty_graph"


section \<open>Cache or API (\<^verbatim>\<open>get_job_data\<close> in app.py)\<close>

text \<open>
  The cached dictionary with its keys \<^verbatim>\<open>jobs\<close>, \<^verbatim>\<open>graph\<close> and \<^verbatim>\<open>timestamp\<close>.
\<close>

record snapshot =
  cached_jobs :: "job list"
  cached_graph :: "string node_link"
  cached_timestamp :: string

text \<open>
  \<^verbatim>\<open>get_job_data\<close> reads the configuration (\<open>c\<close> for the cache file and its expiry,
  \<open>job_directory\<close>), the local time zone, the API and the clock: \<open>now\<close> is the instant of
  the validity check, \<open>write_time\<close> and \<open>iso_now\<close> are the instant of the write and its
  ISO text. It returns the result or the exception raised, and the file system as it
  leaves it. The validity check stands before the \<^verbatim>\<open>try\<close>: what it raises is not wrapped.
\<close>

definition get_job_data ::
  "job_cache \<Rightarrow> zone \<Rightarrow> string \<Rightarrow> tidal_api \<Rightarrow> int \<Rightarrow> int \<Rightarrow> string \<Rightarrow> snapshot filesystem
     \<Rightarrow> (error + job list \<times> string digraph \<times> string) \<times> snapshot filesystem" where
  "get_job_data c tz job_directory api now write_time iso_now fs =
     (case is_cache_valid c tz fs now of
        Inl e \<Rightarrow> (Inl e, fs)
      | Inr valid \<Rightarrow>
     (let cached_data = (if valid then load_cache c fs else None)
      in case cached_data of
           Some d \<Rightarrow> (Inr (cached_jobs d, node_link_graph (cached_graph d), ''cache''), fs)
         | None \<Rightarrow>
             (case get_jobs api job_directory of
                Inl e \<Rightarrow> (Inl (Exception (''Unable to connect to Tidal API: '' @ str e)), fs)
              | Inr jobs \<Rightarrow>
                  (case build_job_graph jobs api of
                     Inl e \<Rightarrow> (Inl (Exception (''Unable to connect to Tidal API: '' @ str e)), fs)
                   | Inr G \<Rightarrow>
                       (let cache_data = \<lparr>cached_jobs = jobs, cached_graph = node_link_data G,
                                           cached_timestamp = iso_now\<rparr>
                        in (Inr (jobs, G, ''api''), save_cache c cache_data write_time fs))))))"


section \<open>Hierarchical layout (\<^verbatim>\<open>create_hierarchical_layout\<close> in app.py)\<close>

text \<open>
  The state of the level assignment is the dictionary \<^verbatim>\<open>levels\<close>, an association list
  in insertion order, and the set \<^verbatim>\<open>processed\<close>. \<open>assign_level\<close> is the nested function
  of the source; \<open>pred_levels\<close> is the generator
  \<^verbatim>\<open>assign_level(pred, level) for pred in predecessors\<close>, run from left to right by
  \<^verbatim>\<open>max\<close>. Both return their value and the state they leave.
\<close>

type_synonym 'a layout_state = "('a \<times> int) list \<times> 'a set"

function assign_level ::
    "'a digraph \<Rightarrow> 'a \<Rightarrow> int \<Rightarrow> 'a layout_state \<Rightarrow> int \<times> 'a layout_state"
  and pred_levels ::
    "'a digraph \<Rightarrow> 'a list \<Rightarrow> int \<Rightarrow> 'a layout_state \<Rightarrow> int list \<times> 'a layout_state"
where
  "assign_level G node level (levels, processed) =
     (if node \<in> processed
      then (case map_of levels node of Some l \<Rightarrow> l | None \<Rightarrow> level, (levels, processed))
      else
        (let processed = insert node processed;
             preds = predecessors G node
         in if preds = []
            then (0, (AList.update node 0 levels, processed))
            else
              (let (ls, (levels, processed)) = pred_levels G preds level (levels, processed);
                   max_pred_level = Max (set ls)
               in (max_pred_level + 1,
                   (AList.update node (max_pred_level + 1) levels, processed)))))"
| "pred_levels G [] level s = ([], s)"
| "pred_levels G (pred # preds) level s =
     (let (l, s) = assign_level G pred level s;
          (ls, s) = pred_levels G preds level s
      in (l # ls, s))"
  by pat_completeness auto

text \<open>
  The recursion ends on every graph: \<^verbatim>\<open>processed\<close> only grows, and a call that goes on
  to the predecessors of a node has just added that node, an end of some edge, to it.
\<close>

lemma processed_mono_dom:
  "assign_level_pred_levels_dom (Inl (G, node, level, s)) \<Longrightarrow>
     snd s \<subseteq> snd (snd (assign_level G node level s))"
  "assign_level_pred_levels_dom (Inr (G, ps, level, s)) \<Longrightarrow>
     snd s \<subseteq> snd (snd (pred_levels G ps level s))"
proof (induction G node level s and G ps level s rule: assign_level_pred_levels.pinduct)
  case (1 G node level levels processed)
  show ?case
  proof (cases "node \<in> processed \<or> predecessors G node = []")
    case True
    then show ?thesis using 1(1) by (auto simp: assign_level.psimps Let_def)
  next
    case False
    then have "insert node processed
        \<subseteq> snd (snd (pred_levels G (predecessors G node) level (levels, insert node processed)))"
      using 1(2)[OF _ refl refl] by simp
    then show ?thesis using 1(1) False
      by (auto simp: assign_level.psimps Let_def split: prod.splits)
  qed
next
  case (2 G level s)
  then show ?case by (simp add: pred_levels.psimps)
next
  case (3 G pred preds level s)
  then show ?case
    by (fastforce simp: pred_levels.psimps Let_def split: prod.splits)
qed

termination assign_level
proof (relation "inv_image (less_than <*lex*> less_than)
    (\<lambda>x. case x of
        Inl (G, node, level, s) \<Rightarrow> (card (snd ` set (edges G) - snd s), 0)
      | Inr (G, ps, level, s) \<Rightarrow> (card (snd ` set (edges G) - snd s), Suc (length ps)))",
    goal_cases)
  case 1
  show ?case by (intro wf_inv_image wf_lex_prod wf_less_than)
next
  case (2 G node level levels processed x xa)
  then have "node \<in> snd ` set (edges G)"
    by (auto simp: predecessors_def filter_empty_conv)
  then have "card (snd ` set (edges G) - insert node processed)
           < card (snd ` set (edges G) - processed)"
    using 2(1) by (intro psubset_card_mono) auto
  then show ?case using 2 by simp
next
  case (3 G pred preds level s)
  then show ?case by simp
next
  case (4 G pred preds level s x xa y)
  have "snd s \<subseteq> snd y"
    using processed_mono_dom(1)[OF 4(3)] 4(1,2) by (metis snd_conv)
  then have "card (snd ` set (edges G) - snd y) \<le> card (snd ` set (edges G) - snd s)"
    by (intro card_mono) auto
  then show ?case by auto
qed

declare assign_level.simps [simp del]

text \<open>The loop \<^verbatim>\<open>for node in G.nodes(): assign_level(node)\<close>, from the empty state.\<close>

definition assign_all :: "'a digraph \<Rightarrow> 'a layout_state" where
  "assign_all G = fold (\<lambda>node s. snd (assign_level G node 0 s)) (nodes G) ([], {})"

text \<open>
  Grouping: \<^verbatim>\<open>levels.items()\<close> is read in insertion order; a level seen for the first
  time gets an empty list, then the node is appended to the list of its level.
\<close>

definition group_step :: "'a \<times> int \<Rightarrow> (int \<times> 'a list) list \<Rightarrow> (int \<times> 'a list) list" where
  "group_step item level_groups =
     (let node = fst item;
          level = snd item;
          level_groups = (if map_of level_groups level = None
                          then AList.update level [] level_groups else level_groups)
      in case map_of level_groups level of
           Some ns \<Rightarrow> AList.update level (ns @ [node]) level_groups
         | None \<Rightarrow> level_groups)"

definition group_by_level :: "('a \<times> int) list \<Rightarrow> (int \<times> 'a list) list" where
  "group_by_level levels = fold group_step levels []"

text \<open>
  Positions: \<^verbatim>\<open>x_spacing = 200\<close>, \<^verbatim>\<open>y_spacing = 100\<close>; \<open>x\<close> is an integer, \<open>y\<close> a
  float, here a rational (the values are multiples of 50, which floats hold exactly).
\<close>

definition place_level ::
  "int \<Rightarrow> 'a list \<Rightarrow> ('a \<times> int \<times> rat) list \<Rightarrow> ('a \<times> int \<times> rat) list" where
  "place_level level ns pos =
     (let x_spacing = 200;
          y_spacing = 100;
          x = level * x_spacing;
          num_nodes = length ns
      in fold (\<lambda>(i, node) pos.
                 (let y = (of_nat i - of_nat num_nodes / 2 + 1 / 2) * y_spacing
                  in AList.update node (x, y) pos))
              (enumerate 0 ns) pos)"

definition create_hierarchical_layout :: "'a digraph \<Rightarrow> ('a \<times> int \<times> rat) list" where
  "create_hierarchical_layout G =
     (let levels = fst (assign_all G);
          level_groups = group_by_level levels
      in fold (\<lambda>(level, ns) pos. place_level level ns pos) level_groups [])"


text \<open>
  How a call changes the state: new entries are put at the end of \<^verbatim>\<open>levels\<close>, for
  nodes that were not in \<^verbatim>\<open>processed\<close>, each once, and \<^verbatim>\<open>processed\<close> grows by
  exactly these nodes.
\<close>

definition extends :: "'a layout_state \<Rightarrow> 'a layout_state \<Rightarrow> bool" where
  "extends s t \<longleftrightarrow>
     (\<exists>ext. fst t = fst s @ ext \<and> distinct (map fst ext) \<and> fst ` set ext \<inter> snd s = {}
            \<and> snd t = snd s \<union> fst ` set ext)"


text \<open>
  The recursive definition of the level, read on a dictionary of levels: the predecessors
  of \<open>n\<close> have a level, and the level of \<open>n\<close> is 0 without predecessors and otherwise
  one more than the greatest level of a predecessor.
\<close>

definition level_ok :: "'a digraph \<Rightarrow> ('a \<times> int) list \<Rightarrow> 'a \<Rightarrow> bool" where
  "level_ok G lv n \<longleftrightarrow>
     set (predecessors G n) \<subseteq> fst ` set lv
     \<and> map_of lv n = Some (if predecessors G n = [] then 0
                          else 1 + Max ((\<lambda>p. the (map_of lv p)) ` set (predecessors G n)))"


text \<open>
  The nodes of level \<open>l\<close>, in the order in which \<^verbatim>\<open>levels\<close> received them.
\<close>

definition level_group :: "('a \<times> int) list \<Rightarrow> int \<Rightarrow> 'a list" where
  "level_group lv l = map fst (filter (\<lambda>p. snd p = l) lv)"


text \<open>
  The dictionary \<^verbatim>\<open>levels\<close> when the loop over the nodes has ended, and the \<open>y\<close>
  coordinate of a node in a coordinate map.
\<close>

definition y_of :: "('a \<times> int \<times> rat) list \<Rightarrow> 'a \<Rightarrow> rat" where
  "y_of pos n = (case map_of pos n of Some p \<Rightarrow> snd p | None \<Rightarrow> 0)"

definition levels_of :: "'a digraph \<Rightarrow> ('a \<times> int) list" where
  "levels_of G = fst (assign_all G)"




section \<open>The layout under Python's recursion limit\<close>








section \<open>Sample data\<close>

definition sample_entry :: "string \<Rightarrow> history_entry" where
  "sample_entry t = \<lparr>timestamp = t, job_id = ''1'', job_name = ''A'', status = ''success'',
                      output_field = None, error_log = None\<rparr>"

text \<open>
  The scenarios of the specification: jobs A, B, C with the triggers A\<rightarrow>B and B\<rightarrow>C, and
  jobs A, B with the triggers A\<rightarrow>B and B\<rightarrow>A, each with the graph that
  \<^verbatim>\<open>build_job_graph\<close> makes of it.
\<close>

definition job_A :: job where "job_A = \<lparr>jid = ''1'', jname = ''A''\<rparr>"
definition job_B :: job where "job_B = \<lparr>jid = ''2'', jname = ''B''\<rparr>"
definition job_C :: job where "job_C = \<lparr>jid = ''3'', jname = ''C''\<rparr>"

definition chain_api :: tidal_api where
  "chain_api = \<lparr>get_jobs = (\<lambda>d. Inr [job_A, job_B, job_C]),
                 get_job_triggers = (\<lambda>i. if i = ''1'' then Inr [\<lparr>triggered_job_name = ''B''\<rparr>]
                                          else if i = ''2'' then Inr [\<lparr>triggered_job_name = ''C''\<rparr>]
                                          else Inr [])\<rparr>"

definition chain_graph :: "string digraph" where
  "chain_graph = \<lparr>nodes = [''A'', ''B'', ''C''], edges = [(''A'', ''B''), (''B'', ''C'')]\<rparr>"



text \<open>
  Three jobs X, Y, Z in this order and the trigger Z\<rightarrow>X: the level 0 holds Z and Y.
\<close>

definition zx_graph :: "string digraph" where
  "zx_graph = \<lparr>nodes = [''X'', ''Y'', ''Z''], edges = [(''Z'', ''X'')]\<rparr>"

text \<open>
  An API whose only job A triggers a job that is not in the job list, and an API whose
  trigger lookup fails for the second job.
\<close>

definition implicit_api :: tidal_api where
  "implicit_api = \<lparr>get_jobs = (\<lambda>d. Inr [job_A]),
                    get_job_triggers = (\<lambda>i. Inr [\<lparr>triggered_job_name = ''Ghost''\<rparr>])\<rparr>"

definition failing_api :: tidal_api where
  "failing_api = \<lparr>get_jobs = (\<lambda>d. Inr [job_A, job_B]),
                   get_job_triggers = (\<lambda>i. if i = ''1'' then Inr [\<lparr>triggered_job_name = ''B''\<rparr>]
                                            else Inl (Exception ''Failed to get job triggers for 2: timeout''))\<rparr>"

text \<open>
  Time zones: UTC, and a zone that is one hour ahead of UTC until the instant one hour
  after the epoch and two hours ahead from then on (a switch to daylight-saving time).
  A file system whose cache file was written at the epoch, and the default cache with an
  expiry of a thousand million days.
\<close>

definition utc_zone :: zone where
  "utc_zone t = 0"

definition dst_zone :: zone where
  "dst_zone t = (if t < 3600000000 then 3600000000 else 7200000000)"

definition epoch_files :: "unit filesystem" where
  "epoch_files = [cache_file default_cache \<mapsto> \<lparr>content = (), mtime = 0\<rparr>]"

definition huge_ttl_cache :: job_cache where
  "huge_ttl_cache = default_cache\<lparr>expiry_hours := 24000000000\<rparr>"

text \<open>
  A file system that holds the complete snapshot \<open>''old''\<close> in the cache file.
\<close>

definition old_files :: "string option filesystem" where
  "old_files = [cache_file default_cache \<mapsto> \<lparr>content = Some ''old'', mtime = 0\<rparr>]"



section \<open>Properties of the history log\<close>

lemma slice_from_neg: "0 < k \<Longrightarrow> slice_from (- int k) xs = drop (length xs - k) xs"
  by (auto simp: slice_from_def Let_def max_def nat_diff_distrib' intro!: arg_cong2[where f=drop])

lemma load_add_status_entry:
  "load_history (add_status_entry now i n st out err f) =
     (let h = load_history f @ [\<lparr>timestamp = now, job_id = i, job_name = n, status = st,
                    output_field = out, error_log = err\<rparr>]
      in drop (length h - 1000) h)"
proof -
  have "(if length h > 1000 then slice_from (- 1000) h else h) = drop (length h - 1000) h"
    for h :: "history_entry list"
    using slice_from_neg[of 1000 h] by simp
  then show ?thesis
    by (simp only: add_status_entry_def save_history_def Let_def load_history_def option.case)
qed

lemma load_append_entry:
  "load_history (append_entry e f) =
     drop (length (load_history f) + 1 - 1000) (load_history f @ [e])"
  by (simp add: append_entry_def load_add_status_entry Let_def)

lemma load_append_entries:
  "es \<noteq> [] \<Longrightarrow> load_history (append_entries es f) =
     drop (length (load_history f) + length es - 1000) (load_history f @ es)"
proof (induction es arbitrary: f)
  case Nil
  then show ?case by simp
next
  case (Cons e es)
  show ?case
  proof (cases "es = []")
    case True
    then show ?thesis by (simp add: append_entries_def load_append_entry)
  next
    case False
    have "load_history (append_entries (e # es) f) =
            load_history (append_entries es (append_entry e f))"
      by (simp add: append_entries_def)
    also have "\<dots> = drop (length (load_history (append_entry e f)) + length es - 1000)
                       (load_history (append_entry e f) @ es)"
      using Cons.IH[OF False] by simp
    also have "\<dots> = drop (length (load_history f) + length (e # es) - 1000)
                       (load_history f @ e # es)"
    proof -
      define h where "h = load_history f @ [e]"
      have "drop (length (drop (length h - 1000) h) + length es - 1000)
                 (drop (length h - 1000) h @ es)
          = drop (length h + length es - 1000) (h @ es)"
        by (cases "length h \<le> 1000") (auto simp: add.commute)
      then show ?thesis by (simp add: load_append_entry h_def)
    qed
    finally show ?thesis .
  qed
qed

text \<open>
  Claim C3, as the code has it. The cap of \<^verbatim>\<open>add_status_entry\<close> is the constant 1000
  written in the function; there is no parameter or setting that changes it. After every
  \<^verbatim>\<open>add_status_entry\<close> the stored log has at most 1000 entries, whatever the file held
  before; the stored log is the old log with the new entry at the end, cut from the front
  (oldest entries first) down to 1000; \<^verbatim>\<open>load_history\<close> returns the stored list as it is,
  without cutting; and appending any entries \<open>es\<close>, in order, to a missing or empty log
  leaves exactly the newest 1000 of them (all of them when there are at most 1000).
\<close>

theorem history_cap_fifo:
  "length (load_history (add_status_entry now i n st out err f)) \<le> 1000
   \<and> load_history (add_status_entry now i n st out err f) =
       (let h = load_history f @ [\<lparr>timestamp = now, job_id = i, job_name = n,
                                    status = st, output_field = out, error_log = err\<rparr>]
        in drop (length h - 1000) h)
   \<and> load_history (Some h) = h
   \<and> load_history (append_entries es None) = drop (length es - 1000) es
   \<and> load_history (append_entries es (Some [])) = drop (length es - 1000) es"
proof -
  have a: "load_history (append_entries es g) = drop (length es - 1000) es"
    if "load_history g = []" for g
  proof (cases "es = []")
    case True
    then show ?thesis using that by (simp add: append_entries_def)
  next
    case False
    then show ?thesis using load_append_entries[OF False, of g] that by simp
  qed
  have b: "length (load_history (add_status_entry now i n st out err f)) \<le> 1000"
    unfolding load_add_status_entry Let_def by simp
  have c: "load_history (Some h) = h"
    by (simp add: load_history_def)
  have d: "load_history None = []" "load_history (Some []) = []"
    by (simp_all add: load_history_def)
  show ?thesis
    using b c a[OF d(1)] a[OF d(2)] load_add_status_entry[of now i n st out err f]
    by blast
qed

text \<open>
  Claim C3, as stated, fails on the scenario with five entries: no log of the code has the
  cap 3, and appending e1..e5 to an empty log leaves all five entries, not [e3, e4, e5].
\<close>

theorem history_five_entries_counterexample:
  "load_history (append_entries
      [sample_entry ''t1'', sample_entry ''t2'', sample_entry ''t3'', sample_entry ''t4'',
       sample_entry ''t5''] None)
     = [sample_entry ''t1'', sample_entry ''t2'', sample_entry ''t3'', sample_entry ''t4'',
        sample_entry ''t5'']
   \<and> load_history (append_entries
      [sample_entry ''t1'', sample_entry ''t2'', sample_entry ''t3'', sample_entry ''t4'',
       sample_entry ''t5''] None)
     \<noteq> [sample_entry ''t3'', sample_entry ''t4'', sample_entry ''t5'']"
  by (simp add: append_entries_def append_entry_def add_status_entry_def load_history_def
      save_history_def sample_entry_def)

text \<open>
  For a limit of at least 1, \<^verbatim>\<open>get_job_history\<close> returns the last \<open>limit\<close> entries of
  the job, oldest first (all of them when there are fewer).
\<close>

lemma get_job_history_positive_limit:
  "1 \<le> limit \<Longrightarrow> get_job_history f n limit =
     (let m = filter (\<lambda>entry. job_name entry = n) (load_history f)
      in drop (length m - nat limit) m)"
  using slice_from_neg[of "nat limit"]
  by (auto simp: get_job_history_def Let_def)

text \<open>
  Claim C7 at the limit 0: the claim asks for the most recent 0 entries, that is none, and
  \<^verbatim>\<open>job_history[-0:]\<close> is the whole list, so the code returns every entry of the job.
\<close>

theorem get_job_history_limit_zero:
  "get_job_history (Some [sample_entry ''t1'', sample_entry ''t2'']) ''A'' 0
     = [sample_entry ''t1'', sample_entry ''t2'']"
  by (simp add: get_job_history_def load_history_def slice_from_def sample_entry_def)


section \<open>Properties of the cache\<close>

lemma is_cache_valid_in_range:
  assumes "fs (cache_file c) = Some f" "expiry_in_range c tz (mtime f)"
  shows "is_cache_valid c tz fs now
           = Inr (now + tz now < mtime f + tz (mtime f) + expiry_hours c * 3600000000)"
  using assms
  by (simp add: is_cache_valid_def expiry_in_range_def timedelta_hours_def datetime_add_def
      fromtimestamp_def Let_def)

text \<open>
  Claim C4, as the code has it. Without a cache file \<^verbatim>\<open>is_cache_valid\<close> is false. With
  one, when the local UTC offset is the same at the modification of the file and at the
  check and the expiry time is within the range of \<^verbatim>\<open>datetime\<close>, it is true exactly when
  the current instant minus the modification instant is less than \<open>expiry_hours\<close> hours
  (3600000000 microseconds each). So, under these conditions, it is true at the instant
  \<^verbatim>\<open>save_cache\<close> has written the file, for a positive number of hours, and false at any
  later instant at which the hours have elapsed.
\<close>

theorem cache_valid_same_offset:
  "(fs (cache_file c) = None \<longrightarrow> is_cache_valid c tz fs now = Inr False)
   \<and> (fs (cache_file c) = Some f \<longrightarrow> tz (mtime f) = tz now \<longrightarrow> expiry_in_range c tz (mtime f) \<longrightarrow>
        is_cache_valid c tz fs now = Inr (now - mtime f < expiry_hours c * 3600000000))
   \<and> (0 < expiry_hours c \<longrightarrow> expiry_in_range c tz now \<longrightarrow>
        is_cache_valid c tz (save_cache c d now fs) now = Inr True)
   \<and> (tz later = tz now \<longrightarrow> expiry_in_range c tz now \<longrightarrow>
        expiry_hours c * 3600000000 \<le> later - now \<longrightarrow>
        is_cache_valid c tz (save_cache c d now fs) later = Inr False)"
proof -
  have a: "is_cache_valid c tz fs now = Inr False" if "fs (cache_file c) = None"
    using that by (simp add: is_cache_valid_def)
  have b: "is_cache_valid c tz fs now = Inr (now - mtime f < expiry_hours c * 3600000000)"
    if "fs (cache_file c) = Some f" "tz (mtime f) = tz now" "expiry_in_range c tz (mtime f)"
    unfolding is_cache_valid_in_range[where fs = fs and c = c and f = f and tz = tz, OF that(1,3)]
    using that(2) by auto
  have s: "save_cache c d now fs (cache_file c) = Some \<lparr>content = d, mtime = now\<rparr>"
    by (simp add: save_cache_def)
  have v: "is_cache_valid c tz (save_cache c d now fs) t
             = Inr (t + tz t < now + tz now + expiry_hours c * 3600000000)"
    if "expiry_in_range c tz now" for t
    using is_cache_valid_in_range[where fs = "save_cache c d now fs" and c = c
        and f = "\<lparr>content = d, mtime = now\<rparr>" and tz = tz and now = t, OF s] that
    by simp
  have e: "is_cache_valid c tz (save_cache c d now fs) now = Inr True"
    if "0 < expiry_hours c" "expiry_in_range c tz now"
    unfolding v[OF that(2)] using that(1) by simp
  have g: "is_cache_valid c tz (save_cache c d now fs) later = Inr False"
    if "tz later = tz now" "expiry_in_range c tz now" "expiry_hours c * 3600000000 \<le> later - now"
    unfolding v[OF that(2)] using that(1,3) by simp
  show ?thesis using a b e g by blast
qed

theorem cache_valid_same_offset_witness:
  "expiry_in_range default_cache utc_zone 0
   \<and> is_cache_valid default_cache utc_zone (save_cache default_cache () 0 Map.empty) 0 = Inr True
   \<and> is_cache_valid default_cache utc_zone epoch_files 86399999999 = Inr True
   \<and> is_cache_valid default_cache utc_zone (save_cache default_cache () 0 Map.empty) 86400000000
        = Inr False"
proof -
  have r: "expiry_in_range default_cache utc_zone 0"
    by (simp add: expiry_in_range_def default_cache_def utc_zone_def datetime_min_def
        datetime_max_def)
  have h: "0 < expiry_hours default_cache" "utc_zone 86400000000 = utc_zone 0"
    "expiry_hours default_cache * 3600000000 \<le> 86400000000 - 0"
    "utc_zone 0 = utc_zone 86399999999"
    by (simp_all add: default_cache_def utc_zone_def)
  have f: "epoch_files (cache_file default_cache) = Some \<lparr>content = (), mtime = 0\<rparr>"
    by (simp add: epoch_files_def)
  have 1: "is_cache_valid default_cache utc_zone (save_cache default_cache () 0 Map.empty) 0
             = Inr True"
    using cache_valid_same_offset[of Map.empty default_cache utc_zone 0
        "\<lparr>content = (), mtime = 0\<rparr>" "()" 0]
      h(1) r by blast
  have 2: "is_cache_valid default_cache utc_zone epoch_files 86399999999 = Inr True"
    using cache_valid_same_offset[of epoch_files default_cache utc_zone 86399999999
        "\<lparr>content = (), mtime = 0\<rparr>" "()" 0] f h(4) r
    by (simp add: default_cache_def)
  have 3: "is_cache_valid default_cache utc_zone (save_cache default_cache () 0 Map.empty)
             86400000000 = Inr False"
    using cache_valid_same_offset[of Map.empty default_cache utc_zone 0
        "\<lparr>content = (), mtime = 0\<rparr>" "()" 86400000000]
      h(2,3) r by blast
  show ?thesis using r 1 2 3 by blast
qed

text \<open>
  Claim C4, as stated, fails in two ways. Across a switch to daylight-saving time the
  wall clock gains an hour: a cache file written 23.5 hours ago, with the expiry of 24
  hours, exists and is younger than the expiry, and \<^verbatim>\<open>is_cache_valid\<close> is false. And with
  an expiry of a thousand million days \<^verbatim>\<open>is_cache_valid\<close> returns neither true nor
  false: it raises \<^verbatim>\<open>OverflowError\<close>.
\<close>

theorem cache_valid_counterexample:
  "epoch_files (cache_file default_cache) = Some \<lparr>content = (), mtime = 0\<rparr>
   \<and> (84600000000 :: int) - 0 < expiry_hours default_cache * 3600000000
   \<and> is_cache_valid default_cache dst_zone epoch_files 84600000000 = Inr False
   \<and> is_cache_valid huge_ttl_cache utc_zone epoch_files 0 = Inl OverflowError"
  by (simp add: is_cache_valid_def epoch_files_def default_cache_def dst_zone_def utc_zone_def
      huge_ttl_cache_def timedelta_hours_def datetime_add_def datetime_min_def datetime_max_def
      fromtimestamp_def Let_def)


section \<open>Properties of \<^verbatim>\<open>save_cache\<close>\<close>

text \<open>
  Claim C10, as the code has it. \<^verbatim>\<open>save_cache\<close> rewrites the cache file in place and
  in two steps. After the first, the \<^verbatim>\<open>open\<close>, the cache file exists and holds no
  complete snapshot, whatever it held before; after the second it holds the new snapshot,
  which is the state that \<open>save_cache\<close> gives. No state of the two differs from the
  file system before the call at any other path: there is no temporary file and no
  rename.
\<close>

theorem save_cache_in_place:
  "length (save_cache_steps c data open_time write_time fs) = 2
   \<and> (save_cache_steps c data open_time write_time fs ! 0) (cache_file c)
        = Some \<lparr>content = None, mtime = open_time\<rparr>
   \<and> save_cache_steps c data open_time write_time fs ! 1
        = save_cache c (Some data) write_time fs
   \<and> (\<forall>s \<in> set (save_cache_steps c data open_time write_time fs).
         \<forall>p. p \<noteq> cache_file c \<longrightarrow> s p = fs p)"
  by (auto simp: save_cache_steps_def save_cache_def Let_def)

theorem save_cache_in_place_witness:
  "(save_cache_steps default_cache ''new'' 1 2 old_files ! 0) (cache_file default_cache)
      = Some \<lparr>content = None, mtime = 1\<rparr>
   \<and> (save_cache_steps default_cache ''new'' 1 2 old_files ! 1) (cache_file default_cache)
      = Some \<lparr>content = Some ''new'', mtime = 2\<rparr>
   \<and> (save_cache_steps default_cache ''new'' 1 2 old_files ! 0) ''data/job_graph_cache.json.tmp''
      = None"
proof -
  have n: "save_cache_steps default_cache ''new'' 1 2 old_files ! 0
             \<in> set (save_cache_steps default_cache ''new'' 1 2 old_files)"
    by (simp add: save_cache_steps_def Let_def)
  have p: "''data/job_graph_cache.json.tmp'' \<noteq> cache_file default_cache"
    by (simp add: default_cache_def)
  have o: "old_files ''data/job_graph_cache.json.tmp'' = None"
    by (simp add: old_files_def default_cache_def)
  note t = save_cache_in_place[of default_cache "''new''" 1 2 old_files]
  have a: "(save_cache_steps default_cache ''new'' 1 2 old_files ! 0) (cache_file default_cache)
      = Some \<lparr>content = None, mtime = 1\<rparr>"
    using t by blast
  have "save_cache_steps default_cache ''new'' 1 2 old_files ! 1
      = save_cache default_cache (Some ''new'') 2 old_files"
    using t by blast
  then have b: "(save_cache_steps default_cache ''new'' 1 2 old_files ! 1)
      (cache_file default_cache) = Some \<lparr>content = Some ''new'', mtime = 2\<rparr>"
    by (simp add: save_cache_def)
  have "\<forall>p. p \<noteq> cache_file default_cache \<longrightarrow>
          (save_cache_steps default_cache ''new'' 1 2 old_files ! 0) p = old_files p"
    using t n by blast
  then have c: "(save_cache_steps default_cache ''new'' 1 2 old_files ! 0)
      ''data/job_graph_cache.json.tmp'' = None"
    using p o by simp
  show ?thesis using a b c by blast
qed

text \<open>
  Claim C10, as stated, fails: where the cache file holds the snapshot \<open>''old''\<close> and
  \<^verbatim>\<open>save_cache\<close> writes \<open>''new''\<close>, a reader between the two statements finds a cache
  file that holds neither the old snapshot nor the new one.
\<close>

theorem save_cache_atomic_counterexample:
  "old_files (cache_file default_cache) = Some \<lparr>content = Some ''old'', mtime = 0\<rparr>
   \<and> (save_cache_steps default_cache ''new'' 1 2 old_files ! 0) (cache_file default_cache)
        \<noteq> Some \<lparr>content = Some ''old'', mtime = 0\<rparr>
   \<and> (save_cache_steps default_cache ''new'' 1 2 old_files ! 0) (cache_file default_cache)
        \<noteq> Some \<lparr>content = Some ''new'', mtime = 2\<rparr>
   \<and> content (the ((save_cache_steps default_cache ''new'' 1 2 old_files ! 0)
                       (cache_file default_cache))) = None"
  by (simp add: save_cache_steps_def old_files_def Let_def)


section \<open>Properties of the layout\<close>

subsection \<open>Every call extends the state\<close>

lemma extends_refl: "extends s s"
  unfolding extends_def by (rule exI[of _ "[]"]) simp

lemma extends_trans: "extends s t \<Longrightarrow> extends t u \<Longrightarrow> extends s u"
proof -
  assume st: "extends s t" and tu: "extends t u"
  from st obtain e1 where
    1: "fst t = fst s @ e1" "distinct (map fst e1)" "fst ` set e1 \<inter> snd s = {}"
       "snd t = snd s \<union> fst ` set e1"
    unfolding extends_def by blast
  from tu obtain e2 where
    2: "fst u = fst t @ e2" "distinct (map fst e2)" "fst ` set e2 \<inter> snd t = {}"
       "snd u = snd t \<union> fst ` set e2"
    unfolding extends_def by blast
  have a: "fst u = fst s @ (e1 @ e2)" using 1(1) 2(1) by simp
  have b: "distinct (map fst (e1 @ e2))" using 1(2,4) 2(2,3) by auto
  have c: "fst ` set (e1 @ e2) \<inter> snd s = {}" using 1(3,4) 2(3) by auto
  have d: "snd u = snd s \<union> fst ` set (e1 @ e2)" using 1(4) 2(4) by auto
  show ?thesis unfolding extends_def using a b c d by blast
qed

lemma extends_keys: "extends s t \<Longrightarrow> fst ` set (fst s) \<subseteq> snd s \<Longrightarrow> fst ` set (fst t) \<subseteq> snd t"
proof -
  assume a: "extends s t" and b: "fst ` set (fst s) \<subseteq> snd s"
  from a obtain ext where e: "fst t = fst s @ ext" "snd t = snd s \<union> fst ` set ext"
    unfolding extends_def by blast
  have "fst ` set (fst t) = fst ` set (fst s) \<union> fst ` set ext"
    by (simp add: e(1) image_Un)
  then show ?thesis using b e(2) by blast
qed

lemma update_fresh: "k \<notin> fst ` set al \<Longrightarrow> AList.update k v al = al @ [(k, v)]"
  by (induction al) auto

lemma extends_add:
  assumes "extends (lv, insert node pr) (lv1, pr1)" "node \<notin> pr" "fst ` set lv \<subseteq> pr"
  shows "extends (lv, pr) (AList.update node v lv1, pr1)"
proof -
  from assms(1) obtain e1 where
    1: "lv1 = lv @ e1" "distinct (map fst e1)" "fst ` set e1 \<inter> insert node pr = {}" "pr1 = insert node pr \<union> fst ` set e1"
    unfolding extends_def by auto
  have "node \<notin> fst ` set lv1" using 1 assms(2,3) by auto
  then have u: "AList.update node v lv1 = lv @ (e1 @ [(node, v)])"
    using 1(1) by (simp add: update_fresh)
  show ?thesis unfolding extends_def
    by (rule exI[of _ "e1 @ [(node, v)]"]) (use 1 u assms(2) in auto)
qed

lemma assign_level_extends:
  "fst ` set (fst s) \<subseteq> snd s \<Longrightarrow>
     extends s (snd (assign_level G node level s)) \<and> node \<in> snd (snd (assign_level G node level s))"
  "fst ` set (fst s) \<subseteq> snd s \<Longrightarrow>
     extends s (snd (pred_levels G ps level s)) \<and> set ps \<subseteq> snd (snd (pred_levels G ps level s))"
proof (induction G node level s and G ps level s rule: assign_level_pred_levels.induct)
  case (1 G node level levels processed)
  have k: "fst ` set levels \<subseteq> processed" using 1(2) by simp
  show ?case
  proof (cases "node \<in> processed")
    case True
    then have "assign_level G node level (levels, processed)
         = (case map_of levels node of Some l \<Rightarrow> l | None \<Rightarrow> level, (levels, processed))"
      by (subst assign_level.simps) simp
    then show ?thesis using True by (simp add: extends_refl)
  next
    case False
    note nin = this
    show ?thesis
    proof (cases "predecessors G node = []")
      case True
      have eq: "assign_level G node level (levels, processed)
         = (0, (AList.update node 0 levels, insert node processed))"
        using nin True by (subst assign_level.simps) simp
      have "extends (levels, insert node processed) (levels, insert node processed)"
        by (rule extends_refl)
      from extends_add[OF this nin k]
      have "extends (levels, processed) (AList.update node 0 levels, insert node processed)" .
      then show ?thesis unfolding eq by simp
    next
      case False
      obtain ls lv1 pr1 where r: "pred_levels G (predecessors G node) level (levels, insert node processed) = (ls, lv1, pr1)"
        by (metis prod_cases3)
      have eq: "assign_level G node level (levels, processed)
         = (Max (set ls) + 1, (AList.update node (Max (set ls) + 1) lv1, pr1))"
        using nin False r by (subst assign_level.simps) (simp add: Let_def)
      have k': "fst ` set (fst (levels, insert node processed)) \<subseteq> snd (levels, insert node processed)"
        using k by auto
      have e0: "extends (levels, insert node processed) (lv1, pr1)"
        using 1(1)[OF nin refl refl False k'] unfolding r by simp
      from extends_add[OF this nin k]
      have e: "extends (levels, processed) (AList.update node (Max (set ls) + 1) lv1, pr1)" .
      have "node \<in> pr1" using e0 unfolding extends_def by auto
      then show ?thesis unfolding eq using e by simp
    qed
  qed
next
  case (2 G level s)
  then show ?case by (simp add: extends_refl)
next
  case (3 G pred preds level s)
  obtain l s1 where a: "assign_level G pred level s = (l, s1)" by (metis surj_pair)
  obtain ls s2 where b: "pred_levels G preds level s1 = (ls, s2)" by (metis surj_pair)
  have eq: "pred_levels G (pred # preds) level s = (l # ls, s2)"
    by (simp add: a b)
  have e1: "extends s s1" "pred \<in> snd s1" using 3(1)[OF 3(3)] unfolding a by simp_all
  have k1: "fst ` set (fst s1) \<subseteq> snd s1" using extends_keys[OF e1(1) 3(3)] .
  have e2: "extends s1 s2" "set preds \<subseteq> snd s2" using 3(2)[OF refl a[symmetric] k1] unfolding b by simp_all
  have "snd s1 \<subseteq> snd s2" using e2(1) unfolding extends_def by blast
  then show ?case unfolding eq using extends_trans[OF e1(1) e2(1)] e1(2) e2(2) by auto
qed


subsection \<open>On an acyclic graph every level follows the recursive definition\<close>

lemma map_of_append_left: "n \<in> fst ` set lv \<Longrightarrow> map_of (lv @ ext) n = map_of lv n"
  by (induction lv) auto

lemma map_of_append_fresh: "n \<notin> fst ` set lv \<Longrightarrow> map_of (lv @ [(n, v)]) n = Some v"
  by (induction lv) auto

lemma image_lookup_append:
  "A \<subseteq> fst ` set lv \<Longrightarrow>
     (\<lambda>p. the (map_of (lv @ ext) p)) ` A = (\<lambda>p. the (map_of lv p)) ` A"
proof (rule image_cong[OF refl])
  fix x assume "A \<subseteq> fst ` set lv" "x \<in> A"
  then have "x \<in> fst ` set lv" by blast
  then show "the (map_of (lv @ ext) x) = the (map_of lv x)"
    using map_of_append_left[of x lv ext] by (simp only:)
qed

lemma level_ok_append:
  assumes "level_ok G lv n" "n \<in> fst ` set lv"
  shows "level_ok G (lv @ ext) n"
proof -
  have p: "set (predecessors G n) \<subseteq> fst ` set lv" using assms(1) by (simp add: level_ok_def)
  have i: "(\<lambda>p. the (map_of (lv @ ext) p)) ` set (predecessors G n)
      = (\<lambda>p. the (map_of lv p)) ` set (predecessors G n)"
    using p by (rule image_lookup_append)
  have m: "map_of (lv @ ext) n = map_of lv n" using assms(2) by (rule map_of_append_left)
  have q: "set (predecessors G n) \<subseteq> fst ` set (lv @ ext)" using p by auto
  show ?thesis unfolding level_ok_def i m using assms(1) q by (simp add: level_ok_def)
qed

lemma extends_in_progress:
  assumes "extends s t" "fst ` set (fst s) \<subseteq> snd s"
  shows "snd t - fst ` set (fst t) = snd s - fst ` set (fst s)"
proof -
  from assms(1) obtain ext where e: "fst t = fst s @ ext" "fst ` set ext \<inter> snd s = {}"
      "snd t = snd s \<union> fst ` set ext"
    unfolding extends_def by blast
  have k: "fst ` set (fst t) = fst ` set (fst s) \<union> fst ` set ext"
    by (simp add: e(1) image_Un)
  have g: "(P \<union> K) - (A \<union> K) = P - A" if "K \<inter> P = {}" for P A K :: "'a set"
    using that by blast
  show ?thesis unfolding k e(3) using e(2) by (rule g)
qed

lemma extends_appendE:
  assumes "extends s t"
  obtains ext where "fst t = fst s @ ext"
  using assms unfolding extends_def by blast

lemma predecessors_edge: "p \<in> set (predecessors G n) \<longleftrightarrow> (p, n) \<in> set (edges G)"
  by (force simp: predecessors_def)

lemma assign_level_ok:
  "acyclic (set (edges G)) \<Longrightarrow> fst ` set (fst s) \<subseteq> snd s \<Longrightarrow>
   (\<forall>n \<in> fst ` set (fst s). level_ok G (fst s) n) \<Longrightarrow>
   (\<forall>i \<in> snd s - fst ` set (fst s). (i, node) \<notin> (set (edges G))\<^sup>*) \<Longrightarrow>
     (\<forall>n \<in> fst ` set (fst (snd (assign_level G node level s))).
          level_ok G (fst (snd (assign_level G node level s))) n)
     \<and> map_of (fst (snd (assign_level G node level s))) node
          = Some (fst (assign_level G node level s))"
  "acyclic (set (edges G)) \<Longrightarrow> fst ` set (fst s) \<subseteq> snd s \<Longrightarrow>
   (\<forall>n \<in> fst ` set (fst s). level_ok G (fst s) n) \<Longrightarrow>
   (\<forall>p \<in> set ps. \<forall>i \<in> snd s - fst ` set (fst s). (i, p) \<notin> (set (edges G))\<^sup>*) \<Longrightarrow>
     (\<forall>n \<in> fst ` set (fst (snd (pred_levels G ps level s))).
          level_ok G (fst (snd (pred_levels G ps level s))) n)
     \<and> set ps \<subseteq> fst ` set (fst (snd (pred_levels G ps level s)))
     \<and> fst (pred_levels G ps level s)
          = map (\<lambda>p. the (map_of (fst (snd (pred_levels G ps level s))) p)) ps"
proof (induction G node level s and G ps level s rule: assign_level_pred_levels.induct)
  case (1 G node level levels processed)
  have ac: "acyclic (set (edges G))" by fact
  have k: "fst ` set levels \<subseteq> processed" using 1(3) by simp
  have ok: "\<forall>n \<in> fst ` set levels. level_ok G levels n" using 1(4) by simp
  have anc: "\<forall>i \<in> processed - fst ` set levels. (i, node) \<notin> (set (edges G))\<^sup>*" using 1(5) by simp
  show ?case
  proof (cases "node \<in> processed")
    case True
    have eq: "assign_level G node level (levels, processed)
         = (case map_of levels node of Some l \<Rightarrow> l | None \<Rightarrow> level, (levels, processed))"
      using True by (subst assign_level.simps) simp
    have "node \<in> fst ` set levels" using anc True by blast
    then obtain l where "map_of levels node = Some l"
      by (metis domD dom_map_of_conv_image_fst)
    then show ?thesis unfolding eq using ok by simp
  next
    case False
    note nin = this
    have nk: "node \<notin> fst ` set levels" using k nin by blast
    show ?thesis
    proof (cases "predecessors G node = []")
      case True
      have eq: "assign_level G node level (levels, processed)
         = (0, (AList.update node 0 levels, insert node processed))"
        using nin True by (subst assign_level.simps) simp
      have u: "AList.update node 0 levels = levels @ [(node, 0)]"
        using nk by (rule update_fresh)
      have c: "map_of (levels @ [(node, 0)]) node = Some 0"
        using nk by (rule map_of_append_fresh)
      have a: "level_ok G (levels @ [(node, 0)]) node"
        unfolding level_ok_def c using True by simp
      have b: "\<forall>n \<in> fst ` set levels. level_ok G (levels @ [(node, 0)]) n"
        using ok level_ok_append by fast
      have ks: "fst ` set (levels @ [(node, 0)]) = insert node (fst ` set levels)" by auto
      have "\<forall>n \<in> fst ` set (levels @ [(node, 0)]). level_ok G (levels @ [(node, 0)]) n"
        unfolding ks using a b by blast
      then show ?thesis unfolding eq u using c by simp
    next
      case False
      let ?s0 = "(levels, insert node processed)"
      obtain ls lv1 pr1 where r: "pred_levels G (predecessors G node) level ?s0 = (ls, lv1, pr1)"
        by (metis prod_cases3)
      have eq: "assign_level G node level (levels, processed)
         = (Max (set ls) + 1, (AList.update node (Max (set ls) + 1) lv1, pr1))"
        using nin False r by (subst assign_level.simps) (simp add: Let_def)
      have k0: "fst ` set (fst ?s0) \<subseteq> snd ?s0" using k by auto
      have ok0: "\<forall>n \<in> fst ` set (fst ?s0). level_ok G (fst ?s0) n" using ok by simp
      have anc0: "\<forall>p \<in> set (predecessors G node). \<forall>i \<in> snd ?s0 - fst ` set (fst ?s0).
                    (i, p) \<notin> (set (edges G))\<^sup>*"
      proof (intro ballI notI)
        fix p i
        assume p: "p \<in> set (predecessors G node)" and i: "i \<in> snd ?s0 - fst ` set (fst ?s0)"
          and ip: "(i, p) \<in> (set (edges G))\<^sup>*"
        have e: "(p, node) \<in> set (edges G)" using p by (simp add: predecessors_edge)
        show False
        proof (cases "i = node")
          case True
          then have "(node, node) \<in> (set (edges G))\<^sup>+" using ip e by (simp add: rtrancl_into_trancl1)
          then show False using ac by (simp add: acyclic_def)
        next
          case False
          then have "i \<in> processed - fst ` set levels" using i by simp
          moreover have "(i, node) \<in> (set (edges G))\<^sup>*" using ip e by (rule rtrancl_into_rtrancl)
          ultimately show False using anc by blast
        qed
      qed
      from 1(1)[OF nin refl refl False ac k0 ok0 anc0]
      have ih: "\<forall>n \<in> fst ` set lv1. level_ok G lv1 n"
               "set (predecessors G node) \<subseteq> fst ` set lv1"
               "ls = map (\<lambda>p. the (map_of lv1 p)) (predecessors G node)"
        unfolding r by simp_all
      have e0: "extends ?s0 (lv1, pr1)"
        using assign_level_extends(2)[OF k0, of G "predecessors G node" level] unfolding r by simp
      then obtain e1 where e1: "lv1 = levels @ e1" "fst ` set e1 \<inter> insert node processed = {}"
        unfolding extends_def by auto
      have nk1: "node \<notin> fst ` set lv1" using e1 nk by (auto simp: image_Un)
      define M where "M = Max (set ls)"
      have u: "AList.update node (M + 1) lv1 = lv1 @ [(node, M + 1)]"
        using nk1 by (rule update_fresh)
      have b: "\<forall>n \<in> fst ` set lv1. level_ok G (lv1 @ [(node, M + 1)]) n"
        using ih(1) level_ok_append by fast
      have img: "(\<lambda>p. the (map_of (lv1 @ [(node, M + 1)]) p)) ` set (predecessors G node)
               = set ls"
      proof -
        have "(\<lambda>p. the (map_of (lv1 @ [(node, M + 1)]) p)) ` set (predecessors G node)
            = (\<lambda>p. the (map_of lv1 p)) ` set (predecessors G node)"
          using ih(2) by (rule image_lookup_append)
        then show ?thesis using ih(3) by simp
      qed
      have c: "map_of (lv1 @ [(node, M + 1)]) node = Some (M + 1)"
        using nk1 by (rule map_of_append_fresh)
      have q: "set (predecessors G node) \<subseteq> fst ` set (lv1 @ [(node, M + 1)])"
        using ih(2) by auto
      have a: "level_ok G (lv1 @ [(node, M + 1)]) node"
        unfolding level_ok_def img c using False q M_def by simp
      have ks: "fst ` set (lv1 @ [(node, M + 1)]) = insert node (fst ` set lv1)" by auto
      have "\<forall>n \<in> fst ` set (lv1 @ [(node, M + 1)]). level_ok G (lv1 @ [(node, M + 1)]) n"
        unfolding ks using a b by blast
      then show ?thesis unfolding eq M_def[symmetric] u using c by simp
    qed
  qed
next
  case (2 G level s)
  then show ?case by simp
next
  case (3 G pred preds level s)
  have ac: "acyclic (set (edges G))" by fact
  obtain l s1 where a: "assign_level G pred level s = (l, s1)" by (metis surj_pair)
  obtain ls s2 where b: "pred_levels G preds level s1 = (ls, s2)" by (metis surj_pair)
  have eq: "pred_levels G (pred # preds) level s = (l # ls, s2)"
    by (simp add: a b)
  have anc1: "\<forall>i \<in> snd s - fst ` set (fst s). (i, pred) \<notin> (set (edges G))\<^sup>*"
    using 3(6) by simp
  from 3(1)[OF ac 3(4) 3(5) anc1]
  have ih1: "\<forall>n \<in> fst ` set (fst s1). level_ok G (fst s1) n" "map_of (fst s1) pred = Some l"
    unfolding a by simp_all
  have e1: "extends s s1" using assign_level_extends(1)[OF 3(4), of G pred level] unfolding a by simp
  have k1: "fst ` set (fst s1) \<subseteq> snd s1" using extends_keys[OF e1 3(4)] .
  have ip: "snd s1 - fst ` set (fst s1) = snd s - fst ` set (fst s)"
    using extends_in_progress[OF e1 3(4)] .
  have anc2: "\<forall>p \<in> set preds. \<forall>i \<in> snd s1 - fst ` set (fst s1). (i, p) \<notin> (set (edges G))\<^sup>*"
    unfolding ip using 3(6) by simp
  from 3(2)[OF refl a[symmetric] ac k1 ih1(1) anc2]
  have ih2: "\<forall>n \<in> fst ` set (fst s2). level_ok G (fst s2) n"
            "set preds \<subseteq> fst ` set (fst s2)"
            "ls = map (\<lambda>p. the (map_of (fst s2) p)) preds"
    unfolding b by simp_all
  have e2: "extends s1 s2" using assign_level_extends(2)[OF k1, of G preds level] unfolding b by simp
  then obtain ext where ext: "fst s2 = fst s1 @ ext" by (rule extends_appendE)
  have pk: "pred \<in> fst ` set (fst s1)"
    using ih1(2) by (metis map_of_eq_None_iff option.distinct(1))
  have l: "the (map_of (fst s2) pred) = l"
    unfolding ext using map_of_append_left[OF pk] ih1(2) by simp
  have "pred \<in> fst ` set (fst s2)" unfolding ext using pk by (auto simp: image_Un)
  then show ?case unfolding eq using ih2 l by simp
qed


subsection \<open>The loop over all nodes\<close>

lemma fold_assign_extends:
  "fst ` set (fst s) \<subseteq> snd s \<Longrightarrow>
     extends s (fold (\<lambda>node s. snd (assign_level G node 0 s)) ns s)
     \<and> set ns \<subseteq> snd (fold (\<lambda>node s. snd (assign_level G node 0 s)) ns s)"
proof (induction ns arbitrary: s)
  case Nil
  then show ?case by (simp add: extends_refl)
next
  case (Cons n ns)
  let ?s1 = "snd (assign_level G n 0 s)"
  let ?t = "fold (\<lambda>node s. snd (assign_level G node 0 s)) ns ?s1"
  have e1: "extends s ?s1" "n \<in> snd ?s1"
    using assign_level_extends(1)[OF Cons.prems, of G n 0] by simp_all
  have k1: "fst ` set (fst ?s1) \<subseteq> snd ?s1" using extends_keys[OF e1(1) Cons.prems] .
  have e2: "extends ?s1 ?t" "set ns \<subseteq> snd ?t" using Cons.IH[OF k1] by simp_all
  have "snd ?s1 \<subseteq> snd ?t" using e2(1) unfolding extends_def by blast
  then have "n \<in> snd ?t" using e1(2) by blast
  then show ?case using extends_trans[OF e1(1) e2(1)] e2(2) by simp
qed

lemma assign_all_keys:
  "distinct (map fst (fst (assign_all G)))"
  "fst ` set (fst (assign_all G)) = snd (assign_all G)"
  "set (nodes G) \<subseteq> fst ` set (fst (assign_all G))"
proof -
  have k: "fst ` set (fst ([], {})) \<subseteq> snd (([], {}) :: 'a layout_state)" by simp
  from fold_assign_extends[OF k, of G "nodes G"]
  have e: "extends ([], {}) (assign_all G)" and n: "set (nodes G) \<subseteq> snd (assign_all G)"
    unfolding assign_all_def by simp_all
  from e obtain ext where x: "fst (assign_all G) = ext" "distinct (map fst ext)"
      "snd (assign_all G) = fst ` set ext"
    unfolding extends_def by auto
  show "distinct (map fst (fst (assign_all G)))" using x by simp
  show "fst ` set (fst (assign_all G)) = snd (assign_all G)" using x by simp
  then show "set (nodes G) \<subseteq> fst ` set (fst (assign_all G))" using n by simp
qed

lemma fold_assign_ok:
  "acyclic (set (edges G)) \<Longrightarrow> fst ` set (fst s) = snd s \<Longrightarrow>
   (\<forall>n \<in> fst ` set (fst s). level_ok G (fst s) n) \<Longrightarrow>
     (\<forall>n \<in> fst ` set (fst (fold (\<lambda>node s. snd (assign_level G node 0 s)) ns s)).
        level_ok G (fst (fold (\<lambda>node s. snd (assign_level G node 0 s)) ns s)) n)"
proof (induction ns arbitrary: s)
  case Nil
  then show ?case by simp
next
  case (Cons n ns)
  let ?s1 = "snd (assign_level G n 0 s)"
  have k: "fst ` set (fst s) \<subseteq> snd s" using Cons.prems(2) by simp
  have anc: "\<forall>i \<in> snd s - fst ` set (fst s). (i, n) \<notin> (set (edges G))\<^sup>*"
    using Cons.prems(2) by simp
  have ok1: "\<forall>m \<in> fst ` set (fst ?s1). level_ok G (fst ?s1) m"
    using assign_level_ok(1)[OF Cons.prems(1) k Cons.prems(3) anc, of 0] by simp
  have e1: "extends s ?s1" using assign_level_extends(1)[OF k, of G n 0] by simp
  have k1: "fst ` set (fst ?s1) \<subseteq> snd ?s1" using extends_keys[OF e1 k] .
  have "snd ?s1 - fst ` set (fst ?s1) = {}"
    using extends_in_progress[OF e1 k] Cons.prems(2) by simp
  then have eq1: "fst ` set (fst ?s1) = snd ?s1" using k1 by blast
  show ?case using Cons.IH[OF Cons.prems(1) eq1 ok1] by simp
qed

lemma assign_all_level_ok:
  assumes "acyclic (set (edges G))" "n \<in> fst ` set (fst (assign_all G))"
  shows "level_ok G (fst (assign_all G)) n"
proof -
  have a: "fst ` set (fst ([], {})) = snd (([], {}) :: 'a layout_state)" by simp
  have b: "\<forall>n \<in> fst ` set (fst (([], {}) :: 'a layout_state)). level_ok G (fst ([], {})) n" by simp
  show ?thesis using fold_assign_ok[OF assms(1) a b, of "nodes G"] assms(2)
    unfolding assign_all_def by blast
qed

lemma level_ok_edge:
  assumes "level_ok G lv b" "(a, b) \<in> set (edges G)"
  shows "\<exists>la lb. map_of lv a = Some la \<and> map_of lv b = Some lb \<and> la < lb"
proof -
  have p: "a \<in> set (predecessors G b)" using assms(2) by (simp add: predecessors_edge)
  then have ne: "predecessors G b \<noteq> []" by auto
  have "a \<in> fst ` set lv" using assms(1) p unfolding level_ok_def by blast
  then obtain la where la: "map_of lv a = Some la"
    by (metis map_of_eq_None_iff not_None_eq)
  have "the (map_of lv a) \<le> Max ((\<lambda>p. the (map_of lv p)) ` set (predecessors G b))"
    using p by (intro Max_ge) auto
  then have "la < 1 + Max ((\<lambda>p. the (map_of lv p)) ` set (predecessors G b))"
    using la by simp
  moreover have "map_of lv b = Some (1 + Max ((\<lambda>p. the (map_of lv p)) ` set (predecessors G b)))"
    using assms(1) ne unfolding level_ok_def by simp
  ultimately show ?thesis using la by blast
qed


subsection \<open>The scenarios, evaluated\<close>

lemma build_chain: "build_job_graph [job_A, job_B, job_C] chain_api = Inr chain_graph"
  by (simp add: build_job_graph_def chain_api_def chain_graph_def job_A_def job_B_def job_C_def
      add_node_def add_edge_def empty_graph_def Let_def)


lemma chain_levels: "fst (assign_all chain_graph) = [(''A'', 0), (''B'', 1), (''C'', 2)]"
  by (simp add: chain_graph_def assign_all_def assign_level.simps predecessors_def Let_def)


lemma chain_acyclic: "acyclic (set (edges chain_graph))"
proof -
  have "acyclic {(''A'', ''B''), (''B'', ''C'')}"
    by (rule acyclicI_order[where f = "\<lambda>x. if x = ''A'' then (2::nat) else if x = ''B'' then 1 else 0"]) auto
  then show ?thesis by (simp add: chain_graph_def)
qed

lemma chain_wf: "wf_graph chain_graph"
  by (simp add: wf_graph_def chain_graph_def)

text \<open>
  Claim C2. On an acyclic graph the level that the layout assigns to a node is 0 when the
  node has no predecessors and otherwise one more than the greatest level among its
  predecessors (\<open>level_ok\<close>); so the level strictly increases along every edge; and for
  the jobs A, B, C with the triggers A\<rightarrow>B and B\<rightarrow>C the levels are A:0, B:1, C:2.
\<close>

theorem levels_longest_path:
  assumes "acyclic (set (edges G))" and "wf_graph G"
  shows "(\<forall>n \<in> set (nodes G). level_ok G (fst (assign_all G)) n)
       \<and> (\<forall>e \<in> set (edges G). \<exists>la lb. map_of (fst (assign_all G)) (fst e) = Some la
               \<and> map_of (fst (assign_all G)) (snd e) = Some lb \<and> la < lb)
       \<and> build_job_graph [job_A, job_B, job_C] chain_api = Inr chain_graph
       \<and> fst (assign_all chain_graph) = [(''A'', 0), (''B'', 1), (''C'', 2)]"
proof -
  have a: "\<forall>n \<in> set (nodes G). level_ok G (fst (assign_all G)) n"
    using assign_all_level_ok[OF assms(1)] assign_all_keys(3)[of G] by blast
  have b: "\<exists>la lb. map_of (fst (assign_all G)) (fst e) = Some la
               \<and> map_of (fst (assign_all G)) (snd e) = Some lb \<and> la < lb"
    if e: "e \<in> set (edges G)" for e
  proof -
    have "snd e \<in> set (nodes G)" using assms(2) e by (auto simp: wf_graph_def list_all_iff)
    then have "level_ok G (fst (assign_all G)) (snd e)" using a by blast
    moreover have "(fst e, snd e) \<in> set (edges G)" using e by simp
    ultimately show ?thesis by (rule level_ok_edge)
  qed
  show ?thesis using a b build_chain chain_levels by blast
qed

theorem levels_longest_path_witness:
  "acyclic (set (edges chain_graph)) \<and> wf_graph chain_graph
   \<and> level_ok chain_graph (fst (assign_all chain_graph)) ''C''
   \<and> map_of (fst (assign_all chain_graph)) ''C'' = Some 2"
  using levels_longest_path[OF chain_acyclic chain_wf] chain_acyclic chain_wf
  by (simp add: chain_graph_def chain_levels[unfolded chain_graph_def])

subsection \<open>Grouping by level\<close>

lemma group_step_map:
  "map_of (group_step (n, l) lg)
     = (map_of lg)(l \<mapsto> (case map_of lg l of None \<Rightarrow> [] | Some ns \<Rightarrow> ns) @ [n])"
proof (cases "map_of lg l")
  case None
  then show ?thesis
    by (simp add: group_step_def Let_def update_conv')
next
  case (Some ns)
  then show ?thesis
    by (simp add: group_step_def Let_def update_conv')
qed

lemma group_step_distinct:
  "distinct (map fst lg) \<Longrightarrow> distinct (map fst (group_step x lg))"
  by (auto simp: group_step_def Let_def intro!: distinct_update split: option.splits)

lemma fold_group_step_distinct:
  "distinct (map fst lg) \<Longrightarrow> distinct (map fst (fold group_step lv lg))"
  by (induction lv arbitrary: lg) (simp_all add: group_step_distinct)

lemma fold_group_step_map:
  "map_of (fold group_step lv lg) l
     = (if level_group lv l = [] then map_of lg l
        else Some ((case map_of lg l of None \<Rightarrow> [] | Some ns \<Rightarrow> ns) @ level_group lv l))"
proof (induction lv arbitrary: lg)
  case Nil
  then show ?case by (simp add: level_group_def)
next
  case (Cons x lv)
  obtain n k where x: "x = (n, k)" by (cases x)
  have g: "level_group (x # lv) l = (if k = l then n # level_group lv l else level_group lv l)"
    by (simp add: level_group_def x)
  have "map_of (fold group_step (x # lv) lg) l = map_of (fold group_step lv (group_step (n, k) lg)) l"
    by (simp add: x)
  also have "\<dots> = (if level_group lv l = [] then map_of (group_step (n, k) lg) l
        else Some ((case map_of (group_step (n, k) lg) l of None \<Rightarrow> [] | Some ns \<Rightarrow> ns)
                    @ level_group lv l))"
    by (rule Cons.IH)
  also have "\<dots> = (if level_group (x # lv) l = [] then map_of lg l
        else Some ((case map_of lg l of None \<Rightarrow> [] | Some ns \<Rightarrow> ns) @ level_group (x # lv) l))"
    unfolding g group_step_map by (cases "k = l") (simp_all split: option.splits)
  finally show ?case .
qed

lemma group_by_level_map:
  "map_of (group_by_level lv) l
     = (if level_group lv l = [] then None else Some (level_group lv l))"
  unfolding group_by_level_def fold_group_step_map by simp

lemma group_by_level_distinct: "distinct (map fst (group_by_level lv))"
  unfolding group_by_level_def by (rule fold_group_step_distinct) simp

lemma group_by_level_set:
  "(l, ns) \<in> set (group_by_level lv) \<longleftrightarrow> ns = level_group lv l \<and> ns \<noteq> []"
proof -
  have "(l, ns) \<in> set (group_by_level lv) \<longleftrightarrow> map_of (group_by_level lv) l = Some ns"
    using group_by_level_distinct[of lv] by simp
  then show ?thesis unfolding group_by_level_map by auto
qed

lemma level_group_distinct: "distinct (map fst lv) \<Longrightarrow> distinct (level_group lv l)"
  unfolding level_group_def by (induction lv) auto

lemma level_group_mem:
  "n \<in> set (level_group lv l) \<longleftrightarrow> (n, l) \<in> set lv"
  unfolding level_group_def by force

lemma level_group_disjoint:
  assumes "distinct (map fst lv)" "l \<noteq> l'"
  shows "set (level_group lv l) \<inter> set (level_group lv l') = {}"
proof -
  have False if "(n, l) \<in> set lv" "(n, l') \<in> set lv" for n
    using that assms by (meson eq_key_imp_eq_value)
  then show ?thesis unfolding level_group_mem disjoint_iff by blast
qed


subsection \<open>Placing the nodes of each level\<close>

lemma fold_update_enumerate:
  "distinct ns \<Longrightarrow>
     (\<forall>j < length ns.
        map_of (fold (\<lambda>(i, node) pos. AList.update node (x, f i) pos) (enumerate k ns) pos)
               (ns ! j) = Some (x, f (k + j)))
     \<and> (\<forall>n. n \<notin> set ns \<longrightarrow>
        map_of (fold (\<lambda>(i, node) pos. AList.update node (x, f i) pos) (enumerate k ns) pos) n
          = map_of pos n)
     \<and> fst ` set (fold (\<lambda>(i, node) pos. AList.update node (x, f i) pos) (enumerate k ns) pos)
          = fst ` set pos \<union> set ns"
proof (induction ns arbitrary: k pos)
  case Nil
  then show ?case by simp
next
  case (Cons a ns)
  let ?F = "\<lambda>k ns pos. fold (\<lambda>(i, node) pos. AList.update node (x, f i) pos) (enumerate k ns) pos"
  let ?p1 = "AList.update a (x, f k) pos"
  have d: "distinct ns" "a \<notin> set ns" using Cons.prems by simp_all
  have step: "?F k (a # ns) pos = ?F (Suc k) ns ?p1" by simp
  note ih = Cons.IH[OF d(1), of "Suc k" ?p1]
  have A: "map_of (?F k (a # ns) pos) ((a # ns) ! j) = Some (x, f (k + j))"
    if j: "j < length (a # ns)" for j
  proof (cases j)
    case 0
    have "map_of (?F (Suc k) ns ?p1) a = map_of ?p1 a" using ih d(2) by blast
    then show ?thesis unfolding step using 0 by (simp add: update_conv')
  next
    case (Suc j')
    then have "j' < length ns" using j by simp
    then have "map_of (?F (Suc k) ns ?p1) (ns ! j') = Some (x, f (Suc k + j'))" using ih by blast
    then show ?thesis unfolding step using Suc by simp
  qed
  have B: "map_of (?F k (a # ns) pos) n = map_of pos n" if n: "n \<notin> set (a # ns)" for n
  proof -
    have "map_of (?F (Suc k) ns ?p1) n = map_of ?p1 n" using ih n by simp
    then show ?thesis unfolding step using n by (simp add: update_conv')
  qed
  have C: "fst ` set (?F k (a # ns) pos) = fst ` set pos \<union> set (a # ns)"
  proof -
    have "fst ` set (?F (Suc k) ns ?p1) = fst ` set ?p1 \<union> set ns" using ih by blast
    then show ?thesis unfolding step by (simp add: dom_update)
  qed
  show ?case using A B C by blast
qed

lemma place_level_props:
  assumes "distinct ns"
  shows "j < length ns \<Longrightarrow> map_of (place_level l ns pos) (ns ! j)
           = Some (l * 200, (of_nat j - of_nat (length ns) / 2 + 1 / 2) * 100)"
    and "n \<notin> set ns \<Longrightarrow> map_of (place_level l ns pos) n = map_of pos n"
    and "fst ` set (place_level l ns pos) = fst ` set pos \<union> set ns"
  using fold_update_enumerate[OF assms, of "l * 200"
      "\<lambda>i. (of_nat i - of_nat (length ns) / 2 + 1 / 2) * 100" 0 pos]
  unfolding place_level_def Let_def by simp_all


lemma place_all_other:
  "(\<forall>g \<in> set lg. distinct (snd g)) \<Longrightarrow> (\<forall>g \<in> set lg. n \<notin> set (snd g)) \<Longrightarrow>
     map_of (fold (\<lambda>(level, ns) pos. place_level level ns pos) lg pos) n = map_of pos n"
proof (induction lg arbitrary: pos)
  case Nil
  then show ?case by simp
next
  case (Cons g lg)
  obtain l ns where g: "g = (l, ns)" by (cases g)
  have d: "distinct ns" "n \<notin> set ns" using Cons.prems g by auto
  have "map_of (fold (\<lambda>(level, ns) pos. place_level level ns pos) lg (place_level l ns pos)) n
      = map_of (place_level l ns pos) n"
    using Cons.IH[of "place_level l ns pos"] Cons.prems by simp
  then show ?case using place_level_props(2)[OF d] by (simp add: g)
qed


lemma place_all_at:
  assumes "distinct (map fst lg)" "\<forall>g \<in> set lg. distinct (snd g)"
    and "\<forall>g \<in> set lg. \<forall>h \<in> set lg. fst g \<noteq> fst h \<longrightarrow> set (snd g) \<inter> set (snd h) = {}"
    and "(l, ns) \<in> set lg" "j < length ns"
  shows "map_of (fold (\<lambda>(level, ns) pos. place_level level ns pos) lg pos) (ns ! j)
           = Some (l * 200, (of_nat j - of_nat (length ns) / 2 + 1 / 2) * 100)"
  using assms
proof (induction lg arbitrary: pos)
  case Nil
  then show ?case by simp
next
  case (Cons g lg)
  show ?case
  proof (cases "(l, ns) \<in> set lg")
    case True
    obtain l' ns' where g: "g = (l', ns')" by (cases g)
    have "map_of (fold (\<lambda>(level, ns) pos. place_level level ns pos) lg
                   (place_level l' ns' pos)) (ns ! j)
           = Some (l * 200, (of_nat j - of_nat (length ns) / 2 + 1 / 2) * 100)"
      using Cons.prems by (intro Cons.IH[OF _ _ _ True]) auto
    then show ?thesis by (simp add: g)
  next
    case False
    then have g: "g = (l, ns)" using Cons.prems(4) by simp
    have d: "distinct ns" using Cons.prems(2) g by simp
    have dl: "\<forall>h \<in> set lg. distinct (snd h)" using Cons.prems(2) by simp
    have nj: "ns ! j \<in> set ns" using Cons.prems(5) by simp
    have "\<forall>h \<in> set lg. ns ! j \<notin> set (snd h)"
    proof
      fix h assume h: "h \<in> set lg"
      then have "fst h \<noteq> l" using Cons.prems(1) g by force
      then have "set ns \<inter> set (snd h) = {}" using Cons.prems(3) h g by force
      then show "ns ! j \<notin> set (snd h)" using nj by blast
    qed
    from place_all_other[OF dl this]
    have "map_of (fold (\<lambda>(level, ns) pos. place_level level ns pos) lg (place_level l ns pos)) (ns ! j)
        = map_of (place_level l ns pos) (ns ! j)" .
    then show ?thesis using place_level_props(1)[OF d Cons.prems(5)] by (simp add: g)
  qed
qed


subsection \<open>The coordinate map\<close>

lemma layout_at:
  assumes "j < length (level_group (fst (assign_all G)) l)"
  shows "map_of (create_hierarchical_layout G) (level_group (fst (assign_all G)) l ! j)
     = Some (l * 200,
             (of_nat j - of_nat (length (level_group (fst (assign_all G)) l)) / 2 + 1 / 2) * 100)"
proof -
  let ?lv = "fst (assign_all G)"
  let ?lg = "group_by_level ?lv"
  have dk: "distinct (map fst ?lv)" by (rule assign_all_keys(1))
  have ne: "level_group ?lv l \<noteq> []" using assms by auto
  have m: "(l, level_group ?lv l) \<in> set ?lg" using ne by (simp add: group_by_level_set)
  have a: "distinct (map fst ?lg)" by (rule group_by_level_distinct)
  have b: "\<forall>g \<in> set ?lg. distinct (snd g)"
  proof
    fix g assume "g \<in> set ?lg"
    then have "snd g = level_group ?lv (fst g)"
      using group_by_level_set[of "fst g" "snd g" ?lv] by simp
    then show "distinct (snd g)" using level_group_distinct[OF dk] by simp
  qed
  have c: "\<forall>g \<in> set ?lg. \<forall>h \<in> set ?lg. fst g \<noteq> fst h \<longrightarrow> set (snd g) \<inter> set (snd h) = {}"
  proof (intro ballI impI)
    fix g h assume g: "g \<in> set ?lg" and h: "h \<in> set ?lg" and n: "fst g \<noteq> fst h"
    have "snd g = level_group ?lv (fst g)" "snd h = level_group ?lv (fst h)"
      using group_by_level_set[of "fst g" "snd g" ?lv] group_by_level_set[of "fst h" "snd h" ?lv] g h
      by simp_all
    then show "set (snd g) \<inter> set (snd h) = {}" using level_group_disjoint[OF dk n] by simp
  qed
  show ?thesis
    unfolding create_hierarchical_layout_def Let_def
    using place_all_at[OF a b c m assms, of "[]"] .
qed


lemma y_sum: "(\<Sum>j<m. ((of_nat j :: rat) - c + 1 / 2) * 100) = of_nat m * (of_nat m / 2 - c) * 100"
  by (induction m) (simp_all add: algebra_simps)

lemma empty_layout: "create_hierarchical_layout (empty_graph :: 'a digraph) = []"
  by (simp add: create_hierarchical_layout_def assign_all_def empty_graph_def group_by_level_def)

lemma zx_levels: "levels_of zx_graph = [(''Z'', 0), (''X'', 1), (''Y'', 0)]"
  by (simp add: levels_of_def zx_graph_def assign_all_def assign_level.simps predecessors_def Let_def)

lemma zx_layout:
  "create_hierarchical_layout zx_graph = [(''Z'', 0, - 50), (''Y'', 0, 50), (''X'', 200, 0)]"
  by (simp add: create_hierarchical_layout_def zx_levels[unfolded levels_of_def]
      group_by_level_def group_step_def place_level_def enumerate_eq_zip Let_def)





text \<open>
  Claim C9. The dictionary \<^verbatim>\<open>levels\<close> is read in the order in which the nodes received
  their levels, so the nodes of a level keep that order (\<open>level_group\<close>): it is neither
  sorted nor the order of \<^verbatim>\<open>G.nodes()\<close>. The node at index \<open>j\<close> of the \<open>k\<close> nodes of
  level \<open>l\<close> is placed at \<open>x = l * 200\<close> and \<open>y = (j - k/2 + 0.5) * 100\<close>; every node of
  the graph is in the group of its level; the \<open>y\<close> of a level add up to 0 and two
  neighbours in a level are 100 apart; the empty graph gives the empty map.
\<close>

theorem layout_positions:
  "(\<forall>l. \<forall>j < length (level_group (levels_of G) l).
       map_of (create_hierarchical_layout G) (level_group (levels_of G) l ! j)
         = Some (l * 200,
                 (of_nat j - of_nat (length (level_group (levels_of G) l)) / 2 + 1 / 2) * 100))
   \<and> (\<forall>n \<in> set (nodes G). \<exists>l. map_of (levels_of G) n = Some l
                                  \<and> n \<in> set (level_group (levels_of G) l))
   \<and> (\<forall>l. (\<Sum>j < length (level_group (levels_of G) l).
              y_of (create_hierarchical_layout G)
                                    (level_group (levels_of G) l ! j)) = 0)
   \<and> (\<forall>l j. Suc j < length (level_group (levels_of G) l) \<longrightarrow>
         y_of (create_hierarchical_layout G)
                               (level_group (levels_of G) l ! Suc j)
         = y_of (create_hierarchical_layout G)
                                 (level_group (levels_of G) l ! j) + 100)
   \<and> create_hierarchical_layout (empty_graph :: 'a digraph) = []"
proof -
  let ?grp = "\<lambda>l. level_group (levels_of G) l"
  let ?pos = "create_hierarchical_layout G"
  have at: "map_of ?pos (?grp l ! j)
         = Some (l * 200, (of_nat j - of_nat (length (?grp l)) / 2 + 1 / 2) * 100)"
    if "j < length (?grp l)" for l j
    using layout_at[of j G l] that unfolding levels_of_def by simp
  have a: "\<forall>l. \<forall>j < length (?grp l). map_of ?pos (?grp l ! j)
         = Some (l * 200, (of_nat j - of_nat (length (?grp l)) / 2 + 1 / 2) * 100)"
    using at by blast
  have b: "\<forall>n \<in> set (nodes G). \<exists>l. map_of (levels_of G) n = Some l \<and> n \<in> set (?grp l)"
  proof
    fix n assume "n \<in> set (nodes G)"
    then have "n \<in> fst ` set (levels_of G)"
      using assign_all_keys(3)[of G] unfolding levels_of_def by blast
    then obtain l where nl: "(n, l) \<in> set (levels_of G)" by auto
    have "map_of (levels_of G) n = Some l"
      using nl assign_all_keys(1)[of G] unfolding levels_of_def by simp
    then show "\<exists>l. map_of (levels_of G) n = Some l \<and> n \<in> set (?grp l)"
      using nl by (auto simp: level_group_mem)
  qed
  have c: "(\<Sum>j < length (?grp l). y_of ?pos (?grp l ! j)) = 0" for l
  proof -
    have "(\<Sum>j < length (?grp l). y_of ?pos (?grp l ! j))
        = (\<Sum>j < length (?grp l). (of_nat j - of_nat (length (?grp l)) / 2 + 1 / 2) * 100)"
      by (rule sum.cong[OF refl]) (simp add: at y_of_def)
    also have "\<dots> = 0" unfolding y_sum by simp
    finally show ?thesis .
  qed
  have d: "y_of ?pos (?grp l ! Suc j)
         = y_of ?pos (?grp l ! j) + 100"
    if "Suc j < length (?grp l)" for l j
    using at[of "Suc j" l] at[of j l] that by (simp add: algebra_simps y_of_def)
  show ?thesis using a b c d empty_layout by blast
qed

theorem layout_positions_witness:
  "level_group (levels_of zx_graph) 0 = [''Z'', ''Y'']
   \<and> map_of (create_hierarchical_layout zx_graph) ''Z'' = Some (0, - 50)
   \<and> map_of (create_hierarchical_layout zx_graph) ''Y'' = Some (0, 50)
   \<and> ''Y'' \<in> set (nodes zx_graph)"
proof -
  have g: "level_group (levels_of zx_graph) 0 = [''Z'', ''Y'']"
    by (simp add: zx_levels level_group_def)
  have p: "\<forall>j < length (level_group (levels_of zx_graph) 0).
       map_of (create_hierarchical_layout zx_graph) (level_group (levels_of zx_graph) 0 ! j)
         = Some (0 * 200,
                 (of_nat j - of_nat (length (level_group (levels_of zx_graph) 0)) / 2 + 1 / 2) * 100)"
    using layout_positions[of zx_graph] by blast
  have "map_of (create_hierarchical_layout zx_graph) ''Z'' = Some (0, - 50)"
    using p[unfolded g, rule_format, of 0] by simp
  moreover have "map_of (create_hierarchical_layout zx_graph) ''Y'' = Some (0, 50)"
    using p[unfolded g, rule_format, of 1] by simp
  ultimately show ?thesis using g by (simp add: zx_graph_def)
qed


subsection \<open>Every graph gets a coordinate map\<close>





section \<open>Properties of the graph builder\<close>

lemma add_node_sets:
  "set (nodes (add_node n G)) = insert n (set (nodes G))" "edges (add_node n G) = edges G"
  by (auto simp: add_node_def)

lemma add_edge_sets:
  "set (nodes (add_edge u v G)) = insert u (insert v (set (nodes G)))"
  "set (edges (add_edge u v G)) = insert (u, v) (set (edges G))"
  by (auto simp: add_edge_def add_node_def Let_def)

lemma add_node_wf: "wf_graph G \<Longrightarrow> wf_graph (add_node n G)"
  by (auto simp: wf_graph_def add_node_def list_all_iff)

lemma add_edge_wf: "wf_graph G \<Longrightarrow> wf_graph (add_edge u v G)"
proof -
  assume w: "wf_graph G"
  have w2: "wf_graph (add_node v (add_node u G))" using w by (intro add_node_wf)
  have n: "u \<in> set (nodes (add_node v (add_node u G)))" "v \<in> set (nodes (add_node v (add_node u G)))"
    by (simp_all add: add_node_sets)
  show ?thesis using w2 n unfolding add_edge_def Let_def
    by (auto simp: wf_graph_def list_all_iff)
qed

lemma fold_add_edge:
  "set (nodes (fold (\<lambda>trg G. add_edge name (triggered_job_name trg) G) ts G))
     = set (nodes G) \<union> (if ts = [] then {} else {name}) \<union> triggered_job_name ` set ts"
  "set (edges (fold (\<lambda>trg G. add_edge name (triggered_job_name trg) G) ts G))
     = set (edges G) \<union> (\<lambda>t. (name, triggered_job_name t)) ` set ts"
  "wf_graph G \<Longrightarrow> wf_graph (fold (\<lambda>trg G. add_edge name (triggered_job_name trg) G) ts G)"
  by (induction ts arbitrary: G) (auto simp: add_edge_sets add_edge_wf)

lemma build_loop_ok:
  assumes "\<forall>job \<in> set jobs. get_job_triggers api (jid job) = Inr (T (jid job))"
  shows "\<exists>G'. build_loop jobs api G = Inr G'
     \<and> set (nodes G') = set (nodes G) \<union> jname ` set jobs
          \<union> {triggered_job_name t | job t. job \<in> set jobs \<and> t \<in> set (T (jid job))}
     \<and> set (edges G') = set (edges G)
          \<union> {(jname job, triggered_job_name t) | job t. job \<in> set jobs \<and> t \<in> set (T (jid job))}
     \<and> (wf_graph G \<longrightarrow> wf_graph G')"
  using assms
proof (induction jobs arbitrary: G)
  case Nil
  then show ?case by simp
next
  case (Cons job jobs)
  let ?G1 = "fold (\<lambda>trg G. add_edge (jname job) (triggered_job_name trg) G) (T (jid job))
               (add_node (jname job) G)"
  have t: "get_job_triggers api (jid job) = Inr (T (jid job))" using Cons.prems by simp
  have step: "build_loop (job # jobs) api G = build_loop jobs api ?G1"
    by (simp add: t Let_def)
  have rest: "\<forall>job \<in> set jobs. get_job_triggers api (jid job) = Inr (T (jid job))"
    using Cons.prems by simp
  from Cons.IH[OF rest, of ?G1] obtain G' where g:
    "build_loop jobs api ?G1 = Inr G'"
    "set (nodes G') = set (nodes ?G1) \<union> jname ` set jobs
          \<union> {triggered_job_name t | job t. job \<in> set jobs \<and> t \<in> set (T (jid job))}"
    "set (edges G') = set (edges ?G1)
          \<union> {(jname job, triggered_job_name t) | job t. job \<in> set jobs \<and> t \<in> set (T (jid job))}"
    "wf_graph ?G1 \<longrightarrow> wf_graph G'"
    by blast
  have n1: "set (nodes ?G1) = insert (jname job) (set (nodes G)) \<union> triggered_job_name ` set (T (jid job))"
    unfolding fold_add_edge(1) by (auto simp: add_node_sets)
  have e1: "set (edges ?G1) = set (edges G) \<union> (\<lambda>t. (jname job, triggered_job_name t)) ` set (T (jid job))"
    unfolding fold_add_edge(2) by (simp add: add_node_sets)
  have w1: "wf_graph G \<longrightarrow> wf_graph ?G1"
    by (simp add: fold_add_edge(3) add_node_wf)
  have a: "set (nodes G') = set (nodes G) \<union> jname ` set (job # jobs)
          \<union> {triggered_job_name t | j t. j \<in> set (job # jobs) \<and> t \<in> set (T (jid j))}"
    unfolding g(2) n1 by auto
  have b: "set (edges G') = set (edges G)
          \<union> {(jname j, triggered_job_name t) | j t. j \<in> set (job # jobs) \<and> t \<in> set (T (jid j))}"
    unfolding g(3) e1 by auto
  show ?case unfolding step using g(1) a b w1 g(4) by blast
qed

lemma build_loop_fail:
  "(\<forall>j \<in> set pre. \<exists>ts. get_job_triggers api (jid j) = Inr ts) \<Longrightarrow>
   get_job_triggers api (jid job) = Inl e \<Longrightarrow>
     build_loop (pre @ job # post) api G = Inl e"
proof (induction pre arbitrary: G)
  case Nil
  then show ?case by (simp add: Let_def)
next
  case (Cons j pre)
  then obtain ts where "get_job_triggers api (jid j) = Inr ts" by auto
  then show ?case using Cons by (simp add: Let_def)
qed

lemma build_loop_success:
  "build_loop jobs api G = Inr G' \<Longrightarrow> \<forall>j \<in> set jobs. \<exists>ts. get_job_triggers api (jid j) = Inr ts"
proof (induction jobs arbitrary: G)
  case Nil
  then show ?case by simp
next
  case (Cons j jobs)
  then show ?case by (auto simp: Let_def split: sum.splits)
qed

text \<open>
  Claim C6. When the trigger lookup answers \<open>T\<close> for every job of the list,
  \<^verbatim>\<open>build_job_graph\<close> returns a graph whose nodes are exactly the job names of the list
  together with the triggered names of these jobs, in the list or not, and whose edges are
  exactly the pairs (job name, triggered name), one for every trigger; a triggered name
  outside the list is a node and has its edge all the same.
\<close>

theorem build_job_graph_nodes_edges:
  assumes "\<forall>job \<in> set jobs. get_job_triggers api (jid job) = Inr (T (jid job))"
  shows "\<exists>G. build_job_graph jobs api = Inr G
     \<and> set (nodes G) = jname ` set jobs
          \<union> {triggered_job_name t | job t. job \<in> set jobs \<and> t \<in> set (T (jid job))}
     \<and> set (edges G)
          = {(jname job, triggered_job_name t) | job t. job \<in> set jobs \<and> t \<in> set (T (jid job))}
     \<and> wf_graph G"
proof -
  have w: "wf_graph (empty_graph :: string digraph)" by (simp add: wf_graph_def empty_graph_def)
  from build_loop_ok[OF assms, of empty_graph] obtain G' where g:
    "build_loop jobs api empty_graph = Inr G'"
    "set (nodes G') = set (nodes (empty_graph :: string digraph)) \<union> jname ` set jobs
          \<union> {triggered_job_name t | job t. job \<in> set jobs \<and> t \<in> set (T (jid job))}"
    "set (edges G') = set (edges (empty_graph :: string digraph))
          \<union> {(jname job, triggered_job_name t) | job t. job \<in> set jobs \<and> t \<in> set (T (jid job))}"
    "wf_graph (empty_graph :: string digraph) \<longrightarrow> wf_graph G'"
    by blast
  have e: "set (nodes (empty_graph :: string digraph)) = {}" "set (edges (empty_graph :: string digraph)) = {}"
    by (simp_all add: empty_graph_def)
  show ?thesis unfolding build_job_graph_def using g w unfolding e by auto
qed

theorem build_job_graph_nodes_edges_witness:
  "get_job_triggers implicit_api (jid job_A) = Inr [\<lparr>triggered_job_name = ''Ghost''\<rparr>]
   \<and> (\<exists>G. build_job_graph [job_A] implicit_api = Inr G
         \<and> set (nodes G) = {''A'', ''Ghost''} \<and> set (edges G) = {(''A'', ''Ghost'')})"
proof -
  have h: "\<forall>job \<in> set [job_A]. get_job_triggers implicit_api (jid job)
        = Inr ((\<lambda>i. [\<lparr>triggered_job_name = ''Ghost''\<rparr>]) (jid job))"
    by (simp add: implicit_api_def)
  show ?thesis using build_job_graph_nodes_edges[OF h] h by (auto simp: job_A_def)
qed

text \<open>
  Claim C5. When the trigger lookup fails for a job, those of the jobs before it having
  succeeded, \<^verbatim>\<open>build_job_graph\<close> returns that very exception and no graph. Then
  \<^verbatim>\<open>get_job_data\<close> leaves the cache file as it was, and, when it had gone to the API,
  raises an \<^verbatim>\<open>Exception\<close> that carries the message of the failure. A graph is returned,
  and so cached, only when the lookup succeeded for every job.
\<close>

theorem build_job_graph_fail_fast:
  assumes "\<forall>j \<in> set pre. \<exists>ts. get_job_triggers api (jid j) = Inr ts"
    and "get_job_triggers api (jid job) = Inl e"
  shows "build_job_graph (pre @ job # post) api = Inl e
     \<and> (get_jobs api job_directory = Inr (pre @ job # post) \<longrightarrow>
          snd (get_job_data c tz job_directory api now write_time iso_now fs) = fs)
     \<and> (get_jobs api job_directory = Inr (pre @ job # post) \<longrightarrow>
          is_cache_valid c tz fs now = Inr valid \<longrightarrow>
          \<not> (valid \<and> load_cache c fs \<noteq> None) \<longrightarrow>
          fst (get_job_data c tz job_directory api now write_time iso_now fs)
            = Inl (Exception (''Unable to connect to Tidal API: '' @ str e)))
     \<and> (\<forall>jobs G. build_job_graph jobs api = Inr G \<longrightarrow>
          (\<forall>j \<in> set jobs. \<exists>ts. get_job_triggers api (jid j) = Inr ts))"
proof -
  have b: "build_job_graph (pre @ job # post) api = Inl e"
    unfolding build_job_graph_def using assms by (rule build_loop_fail)
  have c1: "snd (get_job_data c tz job_directory api now write_time iso_now fs) = fs"
    if "get_jobs api job_directory = Inr (pre @ job # post)"
    using that b by (simp add: get_job_data_def Let_def split: option.splits sum.splits)
  have c2: "fst (get_job_data c tz job_directory api now write_time iso_now fs)
            = Inl (Exception (''Unable to connect to Tidal API: '' @ str e))"
    if "get_jobs api job_directory = Inr (pre @ job # post)"
       "is_cache_valid c tz fs now = Inr valid"
       "\<not> (valid \<and> load_cache c fs \<noteq> None)"
    using that b by (auto simp: get_job_data_def Let_def split: option.splits)
  have d: "\<forall>jobs G. build_job_graph jobs api = Inr G \<longrightarrow>
          (\<forall>j \<in> set jobs. \<exists>ts. get_job_triggers api (jid j) = Inr ts)"
    unfolding build_job_graph_def using build_loop_success by blast
  show ?thesis using b c1 c2 d by blast
qed

theorem build_job_graph_fail_fast_witness:
  "get_job_triggers failing_api (jid job_A) = Inr [\<lparr>triggered_job_name = ''B''\<rparr>]
   \<and> get_job_triggers failing_api (jid job_B)
        = Inl (Exception ''Failed to get job triggers for 2: timeout'')
   \<and> build_job_graph [job_A, job_B] failing_api
        = Inl (Exception ''Failed to get job triggers for 2: timeout'')
   \<and> get_job_data default_cache utc_zone ''dir'' failing_api 0 1 ''t'' Map.empty
        = (Inl (Exception
             ''Unable to connect to Tidal API: Failed to get job triggers for 2: timeout''),
           Map.empty)"
proof -
  have h1: "\<forall>j \<in> set [job_A]. \<exists>ts. get_job_triggers failing_api (jid j) = Inr ts"
    by (simp add: failing_api_def job_A_def)
  have h2: "get_job_triggers failing_api (jid job_B)
        = Inl (Exception ''Failed to get job triggers for 2: timeout'')"
    by (simp add: failing_api_def job_B_def)
  have g: "get_jobs failing_api ''dir'' = Inr ([job_A] @ job_B # [])"
    by (simp add: failing_api_def)
  have v: "is_cache_valid default_cache utc_zone (Map.empty :: snapshot filesystem) 0 = Inr False"
    "\<not> (False \<and> load_cache default_cache (Map.empty :: snapshot filesystem) \<noteq> None)"
    by (simp_all add: is_cache_valid_def)
  from build_job_graph_fail_fast[OF h1 h2, of "[]" "''dir''" default_cache utc_zone 0 1 "''t''"
      Map.empty False]
  have "build_job_graph [job_A, job_B] failing_api
          = Inl (Exception ''Failed to get job triggers for 2: timeout'')"
    and "snd (get_job_data default_cache utc_zone ''dir'' failing_api 0 1 ''t'' Map.empty) = Map.empty"
    and "fst (get_job_data default_cache utc_zone ''dir'' failing_api 0 1 ''t'' Map.empty)
          = Inl (Exception (''Unable to connect to Tidal API: ''
                 @ str (Exception ''Failed to get job triggers for 2: timeout'')))"
    using g v by simp_all
  moreover have "get_job_triggers failing_api (jid job_A) = Inr [\<lparr>triggered_job_name = ''B''\<rparr>]"
    by (simp add: failing_api_def job_A_def)
  ultimately show ?thesis using h2 by (simp add: prod_eq_iff)
qed



section \<open>Properties of the layout under the recursion limit\<close>


lemma assign_level_unfold:
  "assign_level G node level (levels, processed) =
     (if node \<in> processed
      then (case map_of levels node of Some l \<Rightarrow> l | None \<Rightarrow> level, (levels, processed))
      else if predecessors G node = []
      then (0, (AList.update node 0 levels, insert node processed))
      else (let r = pred_levels G (predecessors G node) level (levels, insert node processed)
            in (Max (set (fst r)) + 1,
                 (AList.update node (Max (set (fst r)) + 1) (fst (snd r)), snd (snd r)))))"
  by (subst assign_level.simps) (simp add: Let_def split: prod.splits)


lemma processed_mono:
  "snd s \<subseteq> snd (snd (assign_level G node level s))"
  "snd s \<subseteq> snd (snd (pred_levels G ps level s))"
proof (induction G node level s and G ps level s rule: assign_level_pred_levels.induct)
  case (1 G node level levels processed)
  show ?case
  proof (cases "node \<in> processed \<or> predecessors G node = []")
    case True
    then show ?thesis unfolding assign_level_unfold by auto
  next
    case False
    then have "insert node processed
        \<subseteq> snd (snd (pred_levels G (predecessors G node) level (levels, insert node processed)))"
      using 1[OF _ refl refl] by simp
    then show ?thesis unfolding assign_level_unfold using False by (auto simp: Let_def)
  qed
next
  case (2 G level s)
  then show ?case by simp
next
  case (3 G pred preds level s)
  obtain l s1 where a: "assign_level G pred level s = (l, s1)" by (metis surj_pair)
  obtain ls s2 where b: "pred_levels G preds level s1 = (ls, s2)" by (metis surj_pair)
  have "snd s \<subseteq> snd s1" using 3(1) unfolding a by simp
  moreover have "snd s1 \<subseteq> snd s2" using 3(2)[OF refl a[symmetric]] unfolding b by simp
  ultimately have "snd s \<subseteq> snd s2" by blast
  then show ?case by (simp add: a b)
qed





















end
